theory Spec2Isabelle
  imports Complex_Main "HOL-Library.Word"
begin

unbundle bit_operations_syntax

section \<open>Alignment records\<close>

text \<open>
  The alignment record of the external container, with the fields the two source files
  read.  \<open>cigartuples\<close> and \<open>seq\<close> are \<open>None\<close> when the record has none.
  Floating-point values of the source (the coverage arrays, the insert statistics) are
  modelled by exact reals: rounding is not part of the model.
\<close>

record alignment =
  qname :: string
  flag :: int
  rname :: int
  pos :: int
  rnext :: int
  pnext :: int
  cigartuples :: "(int \<times> int) list option"
  seq :: "string option"
  reference_end :: int
  query_alignment_start :: int
  has_SA :: bool

section \<open>coverage.pyx: add\_coverage\<close>

text \<open>The C cast \<open><int> x\<close> of a float truncates towards zero.\<close>

definition c_int_cast :: "real \<Rightarrow> int" where
  "c_int_cast x = (if 0 \<le> x then \<lfloor>x\<rfloor> else \<lceil>x\<rceil>)"

text \<open>
  Indexing a typed memoryview: bounds are not checked (\<open>boundscheck=False\<close>) but a
  negative index still wraps around once.  An index outside the array after that is
  undefined behaviour, \<open>None\<close> here.
\<close>

definition view_index :: "'a list \<Rightarrow> int \<Rightarrow> nat option" where
  "view_index xs i =
     (let j = (if i < 0 then i + int (length xs) else i)
      in if 0 \<le> j \<and> j < int (length xs) then Some (nat j) else None)"

text \<open>\<open>for i in range(lo, hi): chrom_depth[i] += 1\<close>\<close>

definition fill_between :: "int \<Rightarrow> int \<Rightarrow> real list \<Rightarrow> real list" where
  "fill_between lo hi chrom_depth =
     fold (\<lambda>i d. d[i := d ! i + 1]) [nat lo ..< nat hi] chrom_depth"

text \<open>
  \<open>add_coverage(start, end, chrom_depth)\<close> returns the depth at the start bin and the
  updated array (the source updates the array in place).
\<close>

definition add_coverage :: "int \<Rightarrow> int \<Rightarrow> real list \<Rightarrow> (real \<times> real list) option" where
  "add_coverage start end chrom_depth =
     (let fs = real_of_int start / 100;
          fe = real_of_int end / 100;
          bin_start0 = c_int_cast fs;
          bin_end0 = c_int_cast fe;
          bin_start = (if bin_start0 < 0 then 0 else bin_start0);
          bin_end = (if bin_end0 > int (length chrom_depth) - 1
                     then int (length chrom_depth) - 1 else bin_end0);
          ol_start = real_of_int bin_start + 1 - fs
      in case view_index chrom_depth bin_start of
           None \<Rightarrow> None
         | Some i \<Rightarrow>
             let d1 = chrom_depth[i := chrom_depth ! i + ol_start]
             in if bin_start \<noteq> bin_end then
                  (case view_index d1 bin_end of
                     None \<Rightarrow> None
                   | Some j \<Rightarrow>
                       let ol_end = fe - real_of_int bin_end;
                           d2 = d1[j := d1 ! j + ol_end];
                           d3 = (if bin_end - bin_start > 1
                                 then fill_between (bin_start + 1) bin_end d2 else d2)
                       in Some (d3 ! i, d3))
                else Some (d1 ! i, d1))"

section \<open>coverage.pyx: GenomeScanner.\_add\_to\_bin\_buffer\<close>

text \<open>
  The fields of \<open>GenomeScanner\<close> that \<open>_add_to_bin_buffer\<close> reads and writes, each
  under its source name with the prefix \<open>gs_\<close>.  \<open>depth_d\<close> maps a reference index to
  its coverage array; \<open>current_cov_array\<close> is an alias of one of these arrays and is
  kept as the key of the array it points to, so that an update through the alias is an
  update of \<open>depth_d\<close>.  \<open>gs_reference_length\<close> stands for
  \<open>input_bam.get_reference_length(input_bam.get_reference_name(rname))\<close>, and
  \<open>gs_overlap_regions\<close> for the interval index of \<open>io_funcs\<close> together with its query
  \<open>intersecter_int_chrom\<close> (\<open>None\<close> when no regions were given).
\<close>

record genome_scanner =
  gs_max_cov :: int
  gs_overlap_regions :: "(int \<Rightarrow> int \<Rightarrow> int \<Rightarrow> bool) option"
  gs_reference_length :: "int \<Rightarrow> int"
  gs_staged_reads :: "(alignment \<times> int) list list"
  gs_current_bin :: "(alignment \<times> int) list"
  gs_current_chrom :: int
  gs_current_pos :: int
  gs_current_cov_array :: "int option"
  gs_reads_dropped :: int
  gs_depth_d :: "int \<rightharpoonup> real list"

definition ensure_depth :: "genome_scanner \<Rightarrow> int \<Rightarrow> genome_scanner" where
  "ensure_depth self rn =
     (if gs_depth_d self rn = None
      then (let ref_length = c_int_cast (real_of_int (gs_reference_length self rn) / 100)
            in self\<lparr>gs_depth_d := (gs_depth_d self)(rn \<mapsto> replicate (nat (ref_length + 1)) 0)\<rparr>)
      else self)"

definition select_cov_array :: "genome_scanner \<Rightarrow> int \<Rightarrow> genome_scanner" where
  "select_cov_array self rn =
     (if gs_current_chrom self \<noteq> rn
      then self\<lparr>gs_current_chrom := rn, gs_current_cov_array := Some rn\<rparr>
      else if gs_current_cov_array self = None
      then self\<lparr>gs_current_cov_array := Some rn\<rparr>
      else self)"

text \<open>
  The over-coverage branch, statement by statement: the bin is emptied first and the
  length of the (now empty) bin is added to \<open>reads_dropped\<close> afterwards.
\<close>

definition drop_current_bin :: "genome_scanner \<Rightarrow> genome_scanner" where
  "drop_current_bin self =
     (let s1 = (if length (gs_current_bin self) > 0
                then (let s = self\<lparr>gs_current_bin := []\<rparr>
                      in s\<lparr>gs_reads_dropped :=
                             gs_reads_dropped s + int (length (gs_current_bin s))\<rparr>)
                else self)
      in s1\<lparr>gs_reads_dropped := gs_reads_dropped s1 + 1\<rparr>)"

definition add_to_bin_buffer ::
  "genome_scanner \<Rightarrow> alignment \<Rightarrow> int \<Rightarrow> genome_scanner option" where
  "add_to_bin_buffer self a tell =
     (if flag a AND 1540 \<noteq> 0 \<or> cigartuples a = None \<or> seq a = None then Some self
      else
        let rn = rname a;
            apos = pos a;
            bin_pos = c_int_cast (real_of_int apos / 100);
            aend = reference_end a;
            s1 = select_cov_array (ensure_depth self rn) rn
        in case gs_current_cov_array s1 of
             None \<Rightarrow> None
           | Some k \<Rightarrow>
              (case gs_depth_d s1 k of
                 None \<Rightarrow> None
               | Some arr \<Rightarrow>
                  (case add_coverage apos aend arr of
                     None \<Rightarrow> None
                   | Some (current_cov, arr') \<Rightarrow>
                       let s2 = s1\<lparr>gs_depth_d := (gs_depth_d s1)(k \<mapsto> arr')\<rparr>;
                           in_roi = (case gs_overlap_regions s2 of
                                       None \<Rightarrow> False
                                     | Some isect \<Rightarrow> isect rn apos (apos + 1))
                       in if rn = gs_current_chrom s2 \<and> bin_pos = gs_current_pos s2 then
                            (if current_cov \<ge> real_of_int (gs_max_cov s2) \<and> \<not> in_roi
                             then Some (drop_current_bin s2)
                             else Some (s2\<lparr>gs_current_bin := gs_current_bin s2 @ [(a, tell)]\<rparr>))
                          else
                            (let s3 = (if length (gs_current_bin s2) \<noteq> 0 \<and>
                                          (current_cov < real_of_int (gs_max_cov s2) \<or> in_roi)
                                       then s2\<lparr>gs_staged_reads :=
                                                 gs_staged_reads s2 @ [gs_current_bin s2]\<rparr>
                                       else s2)
                             in Some (s3\<lparr>gs_current_chrom := rn, gs_current_pos := bin_pos,
                                         gs_current_bin := [(a, tell)]\<rparr>)))))"


text \<open>
  The specification's words, for comparison: the fraction of bin \<open>i\<close> (the positions
  \<open>100 i \<dots> 100 i + 99\<close>) that the interval from \<open>start\<close> to \<open>end\<close> overlaps, and
  the start-bin fraction \<open>(\<lceil>start/100\<rceil> \<cdot> 100 - start) / 100\<close>.
\<close>

definition bin_overlap :: "int \<Rightarrow> int \<Rightarrow> nat \<Rightarrow> real" where
  "bin_overlap start end i =
     real_of_int (max 0 (min end (100 * (int i + 1)) - max start (100 * int i))) / 100"


text \<open>
  The filter at the head of \<open>_add_to_bin_buffer\<close>, and the scanner states in which
  every record of the current bin and of the staged bins passed it.
\<close>

definition passes_filter :: "alignment \<Rightarrow> bool" where
  "passes_filter a \<longleftrightarrow> flag a AND 1540 = 0 \<and> cigartuples a \<noteq> None \<and> seq a \<noteq> None"

definition staged_all_pass :: "genome_scanner \<Rightarrow> bool" where
  "staged_all_pass self \<longleftrightarrow>
     (\<forall>p \<in> set (gs_current_bin self). passes_filter (fst p)) \<and>
     (\<forall>b \<in> set (gs_staged_reads self). \<forall>p \<in> set b. passes_filter (fst p))"

subsection \<open>Example inputs\<close>

definition aln0 :: alignment where
  "aln0 = \<lparr>qname = ''r0'', flag = 0, rname = 0, pos = 500, rnext = 0, pnext = 0,
     cigartuples = Some [(0, 100)], seq = Some ''ACGT'', reference_end = 600,
     query_alignment_start = 0, has_SA = False\<rparr>"

text \<open>
  A scanner whose current bin (chromosome 0, bin 5) already holds two reads, with
  depth 2 recorded at that bin and a cap of 3.
\<close>

definition gs0 :: genome_scanner where
  "gs0 = \<lparr>gs_max_cov = 3, gs_overlap_regions = None, gs_reference_length = (\<lambda>_. 1000),
     gs_staged_reads = [], gs_current_bin = [(aln0, 1), (aln0, 2)], gs_current_chrom = 0,
     gs_current_pos = 5, gs_current_cov_array = Some 0, gs_reads_dropped = 0,
     gs_depth_d = [0 \<mapsto> [0, 0, 0, 0, 0, 2, 1, 0, 0, 0, 0]]\<rparr>"

section \<open>graph.pyx: the support estimate of proc\_component\<close>

text \<open>
  A row of \<open>NodeToName\<close>: the tuple \<open>(hash of qname, flag, pos, chrom, tell, cigar index,
  event pos)\<close> that \<open>__getitem__\<close> returns.  The table is a list of rows; reading
  past its end is undefined in the source (C++ vectors), \<open>None\<close> here.
\<close>

record node_info =
  nn_h :: nat
  nn_f :: int
  nn_p :: int
  nn_c :: int
  nn_t :: int
  nn_cigar_index :: int
  nn_event_pos :: int

definition NodeToName_getitem :: "node_info list \<Rightarrow> int \<Rightarrow> node_info option" where
  "NodeToName_getitem node_to_name idx =
     (if 0 \<le> idx \<and> idx < int (length node_to_name) then Some (node_to_name ! nat idx) else None)"

text \<open>A Python dict as an association list in insertion order; \<open>d[k] = v\<close>.\<close>

definition dict_set :: "'k \<Rightarrow> 'v \<Rightarrow> ('k \<times> 'v) list \<Rightarrow> ('k \<times> 'v) list" where
  "dict_set k v d =
     (if k \<in> fst ` set d then map (\<lambda>(k', v'). if k' = k then (k', v) else (k', v')) d
      else d @ [(k, v)])"

text \<open>
  The local variables of \<open>proc_component\<close> that its first loop updates.  \<open>sites_index\<close>
  is \<open>None\<close> when no sites were given, else the table from site nodes to site records.
\<close>

record 's pc_state =
  pc_info :: "(int \<times> 's) list option"
  pc_min_support :: int
  pc_reads :: "(int \<times> alignment) list"
  pc_n2n :: "(int \<times> node_info) list"
  pc_support_estimate :: int

definition proc_component_step ::
  "node_info list \<Rightarrow> (int \<rightharpoonup> alignment) \<Rightarrow> int \<Rightarrow> (int \<rightharpoonup> 's) option \<Rightarrow>
   's pc_state \<Rightarrow> int \<Rightarrow> 's pc_state option" where
  "proc_component_step node_to_name read_buffer procs sites_index st v =
     (case (case sites_index of None \<Rightarrow> None | Some idx \<Rightarrow> idx v) of
        Some site \<Rightarrow>
          (let info = (case pc_info st of None \<Rightarrow> [(v, site)] | Some i \<Rightarrow> dict_set v site i)
           in Some (st\<lparr>pc_info := Some info, pc_min_support := int (length info) + 1\<rparr>))
      | None \<Rightarrow>
          (let st1 = (case (if procs = 1 then read_buffer v else None) of
                        Some r \<Rightarrow> st\<lparr>pc_reads := dict_set v r (pc_reads st)\<rparr>
                      | None \<Rightarrow> st)
           in case NodeToName_getitem node_to_name v of
                None \<Rightarrow> None
              | Some key \<Rightarrow>
                  (let st2 = (if nn_cigar_index key \<noteq> -1
                              then st1\<lparr>pc_support_estimate := pc_support_estimate st1 + 2\<rparr>
                              else st1\<lparr>pc_support_estimate := pc_support_estimate st1 + 1\<rparr>)
                   in Some (st2\<lparr>pc_n2n := dict_set v key (pc_n2n st2)\<rparr>))))"

fun proc_component_loop ::
  "node_info list \<Rightarrow> (int \<rightharpoonup> alignment) \<Rightarrow> int \<Rightarrow> (int \<rightharpoonup> 's) option \<Rightarrow>
   's pc_state \<Rightarrow> int list \<Rightarrow> 's pc_state option" where
  "proc_component_loop node_to_name read_buffer procs sites_index st [] = Some st"
| "proc_component_loop node_to_name read_buffer procs sites_index st (v # component) =
     (case proc_component_step node_to_name read_buffer procs sites_index st v of
        None \<Rightarrow> None
      | Some st' \<Rightarrow> proc_component_loop node_to_name read_buffer procs sites_index st' component)"

text \<open>
  \<open>proc_component\<close> up to its test \<open>support_estimate < min_support\<close>: it either
  returns \<open>None\<close> or goes on to partition the component with the state of the loop.
\<close>

datatype 's pc_outcome = Return_None | Proceed "'s pc_state"

definition proc_component_head ::
  "node_info list \<Rightarrow> int list \<Rightarrow> (int \<rightharpoonup> alignment) \<Rightarrow> int \<Rightarrow> int \<Rightarrow>
   (int \<rightharpoonup> 's) option \<Rightarrow> 's pc_outcome option" where
  "proc_component_head node_to_name component read_buffer min_support procs sites_index =
     (if min_support \<ge> 3 \<and> length component = 1 \<and> sites_index = None then Some Return_None
      else case proc_component_loop node_to_name read_buffer procs sites_index
                  \<lparr>pc_info = None, pc_min_support = min_support, pc_reads = [], pc_n2n = [],
                   pc_support_estimate = 0\<rparr> component of
             None \<Rightarrow> None
           | Some st \<Rightarrow>
               if pc_support_estimate st < pc_min_support st then Some Return_None
               else Some (Proceed st))"

text \<open>What one node of the component adds to \<open>support_estimate\<close>.\<close>

definition node_support :: "node_info list \<Rightarrow> (int \<rightharpoonup> 's) option \<Rightarrow> int \<Rightarrow> int" where
  "node_support node_to_name sites_index v =
     (if (case sites_index of None \<Rightarrow> False | Some idx \<Rightarrow> idx v \<noteq> None) then 0
      else if nn_cigar_index (node_to_name ! nat v) \<noteq> -1 then 2 else 1)"

text \<open>Example: a whole-read node.\<close>

definition whole_read :: node_info where
  "whole_read = \<lparr>nn_h = 0, nn_f = 0, nn_p = 0, nn_c = 0, nn_t = 0, nn_cigar_index = -1,
     nn_event_pos = 0\<rparr>"

section \<open>coverage.pyx: insert size parameters\<close>

text \<open>
  \<open>median(L)\<close> reads the middle of a list that its caller has sorted.  On the empty list
  the even branch reads \<open>L[-1]\<close> and raises \<open>IndexError\<close>: \<open>None\<close>.
\<close>

definition median :: "real list \<Rightarrow> real option" where
  "median L =
     (if length L mod 2 = 1 then Some (L ! (length L div 2))
      else if L = [] then None
      else (let mid = length L div 2 - 1 in Some ((L ! mid + L ! (mid + 1)) / 2)))"

text \<open>
  \<open>unscaled_upper_mad(xs)\<close> sorts its argument in place, so the caller's list is sorted
  afterwards: the sorted list is returned with the median and the upper MAD.
\<close>

definition unscaled_upper_mad :: "real list \<Rightarrow> (real list \<times> real \<times> real) option" where
  "unscaled_upper_mad xs =
     (let xs' = sort xs
      in case median xs' of
           None \<Rightarrow> None
         | Some med \<Rightarrow>
             (case median (map (\<lambda>x. x - med) (filter (\<lambda>x. x > med) xs')) of
                None \<Rightarrow> None
              | Some umad \<Rightarrow> Some (xs', med, umad)))"

text \<open>\<open>numpy.median\<close>: the median of the sorted values.\<close>

definition np_median :: "real list \<Rightarrow> real option" where
  "np_median L = median (sort L)"

text \<open>
  \<open>mean_std(L)\<close>: the variable called \<open>mean\<close> is assigned \<open>np.median(L)\<close>; the sum
  \<open>s = sum(L)\<close> is computed and never used.
\<close>

definition mean_std :: "real list \<Rightarrow> (real \<times> real) option" where
  "mean_std L =
     (case np_median L of
        None \<Rightarrow> None
      | Some mean \<Rightarrow>
          (let sq_sum = fold (\<lambda>v acc. acc + (v - mean)\<^sup>2) L 0;
               var = sq_sum / real (length L)
           in Some (mean, sqrt var)))"

definition get_insert_params :: "real list \<Rightarrow> real \<Rightarrow> (real \<times> real) option" where
  "get_insert_params L mads =
     (case unscaled_upper_mad L of
        None \<Rightarrow> None
      | Some (L', med, umad) \<Rightarrow>
          (let upper_cutoff = med + mads * umad;
               L'' = filter (\<lambda>v. v < upper_cutoff) L'
           in mean_std L''))"

text \<open>
  For comparison: the arithmetic mean, and what it means for \<open>m\<close> to be a median of a
  list (at most half of the values lie below it and at most half above).
\<close>

definition spec_mean :: "real list \<Rightarrow> real" where
  "spec_mean L = sum_list L / real (length L)"

definition is_median :: "real \<Rightarrow> real list \<Rightarrow> bool" where
  "is_median m L \<longleftrightarrow>
     2 * length (filter (\<lambda>x. x < m) L) \<le> length L \<and>
     2 * length (filter (\<lambda>x. x > m) L) \<le> length L"

section \<open>graph.pyx: PairedEndScoper\<close>

datatype ReadEnum_t = DISCORDANT | SPLIT | DELETION | INSERTION | BREAKEND

text \<open>The integer value of the enum, for the tests \<open>read_enum < 2\<close> and \<open>read_enum >= 2\<close>.\<close>

fun ReadEnum_value :: "ReadEnum_t \<Rightarrow> int" where
  "ReadEnum_value DISCORDANT = 0"
| "ReadEnum_value SPLIT = 1"
| "ReadEnum_value DELETION = 2"
| "ReadEnum_value INSERTION = 3"
| "ReadEnum_value BREAKEND = 4"

record LocalVal =
  lv_chrom2 :: int
  lv_pos2 :: int
  lv_node_name :: int
  lv_length_from_cigar :: int
  lv_read_enum :: ReadEnum_t

definition make_local_val :: "int \<Rightarrow> int \<Rightarrow> int \<Rightarrow> ReadEnum_t \<Rightarrow> int \<Rightarrow> LocalVal" where
  "make_local_val chrom2 pos2 node_name read_enum length_from_cigar =
     \<lparr>lv_chrom2 = chrom2, lv_pos2 = pos2, lv_node_name = node_name,
      lv_length_from_cigar = length_from_cigar, lv_read_enum = read_enum\<rparr>"

text \<open>
  A scope is a C++ \<open>multimap\<close> from position to \<open>LocalVal\<close>: a list of pairs in key
  order.  \<open>insert\<close> puts a pair after the pairs with an equal key; \<open>lower_bound k\<close>
  splits the list at the first pair whose key is not below \<open>k\<close>.
\<close>

type_synonym scope = "(int \<times> LocalVal) list"

fun mm_insert :: "int \<times> 'v \<Rightarrow> (int \<times> 'v) list \<Rightarrow> (int \<times> 'v) list" where
  "mm_insert pp [] = [pp]"
| "mm_insert pp (q # qs) = (if fst pp < fst q then pp # q # qs else q # mm_insert pp qs)"

definition before_lower_bound :: "int \<Rightarrow> (int \<times> 'v) list \<Rightarrow> (int \<times> 'v) list" where
  "before_lower_bound k m = takeWhile (\<lambda>q. fst q < k) m"

definition from_lower_bound :: "int \<Rightarrow> (int \<times> 'v) list \<Rightarrow> (int \<times> 'v) list" where
  "from_lower_bound k m = dropWhile (\<lambda>q. fst q < k) m"

text \<open>The fields of \<open>PairedEndScoper\<close>, each with the prefix \<open>pe_\<close>.\<close>

record PairedEndScoper =
  pe_clst_dist :: int
  pe_max_dist :: int
  pe_local_chrom :: int
  pe_loci :: scope
  pe_chrom_scope :: "scope list"
  pe_norm :: real
  pe_thresh :: real
  pe_paired_end :: bool

text \<open>
  \<open>__init__\<close>: one scope for each reference and one more for the `insertion
  chromosome'.
\<close>

definition PairedEndScoper_init ::
  "int \<Rightarrow> int \<Rightarrow> nat \<Rightarrow> real \<Rightarrow> real \<Rightarrow> bool \<Rightarrow> PairedEndScoper" where
  "PairedEndScoper_init max_dist clst_dist n_references nrm thr paired =
     \<lparr>pe_clst_dist = clst_dist, pe_max_dist = max_dist, pe_local_chrom = -1, pe_loci = [],
      pe_chrom_scope = replicate (n_references + 1) [], pe_norm = nrm, pe_thresh = thr,
      pe_paired_end = paired\<rparr>"

definition empty_scopes :: "PairedEndScoper \<Rightarrow> PairedEndScoper" where
  "empty_scopes self = self\<lparr>pe_chrom_scope := map (\<lambda>_. []) (pe_chrom_scope self), pe_loci := []\<rparr>"

text \<open>
  The scope that \<open>forward_scope\<close> points to, as an index into \<open>chrom_scope\<close>: the last
  one for the sentinel 10000000, else \<open>chrom_scope[chrom2]\<close>.  An index outside the
  vector is undefined behaviour in the source, \<open>None\<close> here.
\<close>

definition forward_scope_index :: "PairedEndScoper \<Rightarrow> int \<Rightarrow> nat option" where
  "forward_scope_index self chrom2 =
     (if chrom2 = 10000000
      then (if pe_chrom_scope self = [] then None else Some (length (pe_chrom_scope self) - 1))
      else if 0 \<le> chrom2 \<and> chrom2 < int (length (pe_chrom_scope self)) then Some (nat chrom2)
      else None)"

text \<open>
  The two functions of \<open>map_set_utils\<close> that \<open>find_other_nodes\<close> calls are not among the
  sources at hand: they are parameters of the model.
\<close>

record map_set_utils =
  is_reciprocal_overlapping :: "int \<Rightarrow> int \<Rightarrow> int \<Rightarrow> int \<Rightarrow> bool"
  span_position_distance ::
    "int \<Rightarrow> int \<Rightarrow> int \<Rightarrow> int \<Rightarrow> real \<Rightarrow> real \<Rightarrow> ReadEnum_t \<Rightarrow> bool \<Rightarrow> int \<Rightarrow> int \<Rightarrow> bool \<Rightarrow> bool"

text \<open>The arguments of one call of \<open>find_other_nodes\<close>.\<close>

record pe_query =
  q_node_name :: int
  q_current_chrom :: int
  q_current_pos :: int
  q_chrom2 :: int
  q_pos2 :: int
  q_read_enum :: ReadEnum_t
  q_length_from_cigar :: int
  q_trust_ins_len :: bool

text \<open>
  The locals that survive from one neighbour to the next: \<open>sep\<close> (it keeps its last
  value when a neighbour does not set it) and the two result vectors.
\<close>

record walk_state =
  ws_sep :: int
  ws_found_exact :: "int list"
  ws_found2 :: "int list"

definition type_gate :: "pe_query \<Rightarrow> int \<times> LocalVal \<Rightarrow> bool" where
  "type_gate q vitem \<longleftrightarrow>
     (q_read_enum q = DELETION \<and> lv_read_enum (snd vitem) = INSERTION) \<or>
     (q_read_enum q = INSERTION \<and> lv_read_enum (snd vitem) = DELETION)"

definition spd_call :: "map_set_utils \<Rightarrow> PairedEndScoper \<Rightarrow> pe_query \<Rightarrow> int \<times> LocalVal \<Rightarrow> bool" where
  "spd_call msu self q vitem =
     span_position_distance msu (q_current_pos q) (q_pos2 q) (fst vitem) (lv_pos2 (snd vitem))
       (pe_norm self) (pe_thresh self) (q_read_enum q) (pe_paired_end self)
       (q_length_from_cigar q) (lv_length_from_cigar (snd vitem)) (q_trust_ins_len q)"

text \<open>\<open>span_distance < 0.8\<close>, with \<open>max_span\<close> the larger of the two lengths.\<close>

definition span_distance :: "int \<Rightarrow> int \<Rightarrow> real" where
  "span_distance len1 len2 = real_of_int \<bar>len1 - len2\<bar> / real_of_int (max len1 len2)"

text \<open>The body of the forward loop for a neighbour that passed the type gate.\<close>

definition forward_examine ::
  "map_set_utils \<Rightarrow> PairedEndScoper \<Rightarrow> pe_query \<Rightarrow> int \<times> LocalVal \<Rightarrow> walk_state \<Rightarrow> walk_state" where
  "forward_examine msu self q vitem st =
     (let node_name2 = lv_node_name (snd vitem)
      in if node_name2 \<noteq> q_node_name q then
           (if q_current_chrom q \<noteq> q_chrom2 q \<or>
               is_reciprocal_overlapping msu (q_current_pos q) (q_pos2 q) (fst vitem)
                 (lv_pos2 (snd vitem))
            then
              (let sep = \<bar>fst vitem - q_pos2 q\<bar>;
                   sep2 = \<bar>lv_pos2 (snd vitem) - q_current_pos q\<bar>;
                   st1 = st\<lparr>ws_sep := sep\<rparr>
               in if sep < pe_max_dist self \<and> sep2 < pe_max_dist self then
                    (if sep < 35 then
                       (if q_length_from_cigar q > 0 \<and> lv_length_from_cigar (snd vitem) > 0 then
                          (if span_distance (q_length_from_cigar q)
                                (lv_length_from_cigar (snd vitem)) < 8 / 10
                           then st1\<lparr>ws_found_exact := ws_found_exact st1 @ [node_name2]\<rparr>
                           else st1)
                        else st1\<lparr>ws_found_exact := ws_found_exact st1 @ [node_name2]\<rparr>)
                     else if spd_call msu self q vitem
                     then st1\<lparr>ws_found2 := ws_found2 st1 @ [node_name2]\<rparr>
                     else st1)
                  else if spd_call msu self q vitem
                  then st1\<lparr>ws_found2 := ws_found2 st1 @ [node_name2]\<rparr>
                  else st1)
            else if spd_call msu self q vitem
            then st\<lparr>ws_found2 := ws_found2 st @ [node_name2]\<rparr>
            else st)
         else st)"

text \<open>
  The body of the backward loop.  It differs from the forward one in two places: the
  distance test also asks for \<open>vitem.second.chrom2 == chrom2\<close>, and after the test of
  the CIGAR lengths there is one more unconditional \<open>found_exact.push_back(node_name2)\<close>.
\<close>

definition backward_examine ::
  "map_set_utils \<Rightarrow> PairedEndScoper \<Rightarrow> pe_query \<Rightarrow> int \<times> LocalVal \<Rightarrow> walk_state \<Rightarrow> walk_state" where
  "backward_examine msu self q vitem st =
     (let node_name2 = lv_node_name (snd vitem)
      in if node_name2 \<noteq> q_node_name q then
           (if q_current_chrom q \<noteq> q_chrom2 q \<or>
               is_reciprocal_overlapping msu (q_current_pos q) (q_pos2 q) (fst vitem)
                 (lv_pos2 (snd vitem))
            then
              (let sep = \<bar>fst vitem - q_pos2 q\<bar>;
                   sep2 = \<bar>lv_pos2 (snd vitem) - q_current_pos q\<bar>;
                   st1 = st\<lparr>ws_sep := sep\<rparr>
               in if sep < pe_max_dist self \<and> lv_chrom2 (snd vitem) = q_chrom2 q \<and>
                     sep2 < pe_max_dist self then
                    (if sep < 35 then
                       (let st2 =
                          (if q_length_from_cigar q > 0 \<and> lv_length_from_cigar (snd vitem) > 0
                           then
                             (if span_distance (q_length_from_cigar q)
                                   (lv_length_from_cigar (snd vitem)) < 8 / 10
                              then st1\<lparr>ws_found_exact := ws_found_exact st1 @ [node_name2]\<rparr>
                              else st1)
                           else st1\<lparr>ws_found_exact := ws_found_exact st1 @ [node_name2]\<rparr>)
                        in st2\<lparr>ws_found_exact := ws_found_exact st2 @ [node_name2]\<rparr>)
                     else if spd_call msu self q vitem
                     then st1\<lparr>ws_found2 := ws_found2 st1 @ [node_name2]\<rparr>
                     else st1)
                  else if spd_call msu self q vitem
                  then st1\<lparr>ws_found2 := ws_found2 st1 @ [node_name2]\<rparr>
                  else st1)
            else if spd_call msu self q vitem
            then st\<lparr>ws_found2 := ws_found2 st @ [node_name2]\<rparr>
            else st)
         else st)"

text \<open>
  The forward loop \<open>while steps < 6\<close>.  The iterator is the list of the pairs from its
  position on, so \<open>local_it == forward_scope.end()\<close> is the empty list.  On a
  neighbour that the type gate rejects, the source counts a step and
  \<open>continue\<close>s without moving the iterator: the same neighbour is met again until the
  steps run out.
\<close>

function forward_walk ::
  "map_set_utils \<Rightarrow> PairedEndScoper \<Rightarrow> pe_query \<Rightarrow> scope \<Rightarrow> nat \<Rightarrow> walk_state \<Rightarrow> walk_state" where
  "forward_walk msu self q [] steps st = st"
| "forward_walk msu self q (vitem # rest) steps st =
     (if steps < 6 then
        (if type_gate q vitem then forward_walk msu self q (vitem # rest) (steps + 1) st
         else
           (let st1 = forward_examine msu self q vitem st
            in if ws_sep st1 \<ge> pe_max_dist self then st1
               else if rest = [] then st1
               else forward_walk msu self q rest (steps + 1) st1))
      else st)"
  by pat_completeness auto
termination
  by (relation "measure (\<lambda>(msu, self, q, xs, steps, st). 6 - steps)") auto

text \<open>
  The backward loop.  The iterator is the list of the pairs from its position back to
  the first one, nearest first, so \<open>local_it == forward_scope.begin()\<close> is a list of
  one pair.
\<close>

function backward_walk ::
  "map_set_utils \<Rightarrow> PairedEndScoper \<Rightarrow> pe_query \<Rightarrow> scope \<Rightarrow> nat \<Rightarrow> walk_state \<Rightarrow> walk_state" where
  "backward_walk msu self q [] steps st = st"
| "backward_walk msu self q (vitem # rest) steps st =
     (if steps < 6 then
        (if type_gate q vitem then backward_walk msu self q (vitem # rest) (steps + 1) st
         else
           (let st1 = backward_examine msu self q vitem st
            in if rest = [] \<or> ws_sep st1 \<ge> pe_max_dist self then st1
               else backward_walk msu self q rest (steps + 1) st1))
      else st)"
  by pat_completeness auto
termination
  by (relation "measure (\<lambda>(msu, self, q, xs, steps, st). 6 - steps)") auto

text \<open>
  \<open>find_other_nodes\<close> returns the updated scoper and the vector of partners.  The read
  of \<open>*local_it\<close> before the backward loop is not modelled: its value is overwritten
  before any use.
\<close>

definition find_other_nodes ::
  "map_set_utils \<Rightarrow> PairedEndScoper \<Rightarrow> int \<Rightarrow> int \<Rightarrow> int \<Rightarrow> int \<Rightarrow> int \<Rightarrow> ReadEnum_t \<Rightarrow> int \<Rightarrow>
   bool \<Rightarrow> (PairedEndScoper \<times> int list) option" where
  "find_other_nodes msu self node_name current_chrom current_pos chrom2 pos2 read_enum
     length_from_cigar trust_ins_len =
     (case forward_scope_index self chrom2 of
        None \<Rightarrow> None
      | Some idx \<Rightarrow>
          (let q = \<lparr>q_node_name = node_name, q_current_chrom = current_chrom,
                    q_current_pos = current_pos, q_chrom2 = chrom2, q_pos2 = pos2,
                    q_read_enum = read_enum, q_length_from_cigar = length_from_cigar,
                    q_trust_ins_len = trust_ins_len\<rparr>;
               self1 = (if current_chrom \<noteq> pe_local_chrom self
                        then empty_scopes (self\<lparr>pe_local_chrom := current_chrom\<rparr>)
                        else self);
               st0 = \<lparr>ws_sep = 0, ws_found_exact = [], ws_found2 = []\<rparr>
           in if pe_loci self1 \<noteq> [] then
                (let self2 = self1\<lparr>pe_loci :=
                               from_lower_bound (current_pos - pe_clst_dist self1) (pe_loci self1)\<rparr>;
                     forward_scope = pe_chrom_scope self2 ! idx;
                     st1 = (if from_lower_bound pos2 forward_scope \<noteq> []
                            then forward_walk msu self2 q (from_lower_bound pos2 forward_scope) 0 st0
                            else st0);
                     st2 = (if ws_found_exact st1 = [] then
                              (if before_lower_bound pos2 forward_scope \<noteq> []
                               then backward_walk msu self2 q
                                      (rev (before_lower_bound pos2 forward_scope)) 0 st1
                               else st1)
                            else st1)
                 in Some (self2, if ws_found_exact st2 \<noteq> [] then ws_found_exact st2
                                 else ws_found2 st2))
              else Some (self1, [])))"

definition add_item ::
  "PairedEndScoper \<Rightarrow> int \<Rightarrow> int \<Rightarrow> int \<Rightarrow> int \<Rightarrow> int \<Rightarrow> ReadEnum_t \<Rightarrow> int \<Rightarrow>
   PairedEndScoper option" where
  "add_item self node_name current_chrom current_pos chrom2 pos2 read_enum length_from_cigar =
     (case forward_scope_index self chrom2 of
        None \<Rightarrow> None
      | Some idx \<Rightarrow>
          (let pp = (current_pos,
                     make_local_val chrom2 pos2 node_name read_enum length_from_cigar);
               self1 = self\<lparr>pe_loci := mm_insert pp (pe_loci self)\<rparr>;
               fs0 = pe_chrom_scope self1 ! idx;
               fs1 = (if read_enum = DELETION then mm_insert pp fs0 else fs0);
               pp2 = (pos2,
                      make_local_val current_chrom current_pos node_name read_enum
                        length_from_cigar);
               fs2 = mm_insert pp2 fs1
           in Some (self1\<lparr>pe_chrom_scope := (pe_chrom_scope self1)[idx := fs2]\<rparr>)))"

subsection \<open>Example inputs for the scoper\<close>

text \<open>
  Modelled from the spec: \<open>is_reciprocal_overlapping\<close> of \<open>map_set_utils\<close> is not among
  the sources at hand.  The glossary reads: two intervals each cover at least half of
  the other.
\<close>

definition spec_reciprocal_overlap :: "int \<Rightarrow> int \<Rightarrow> int \<Rightarrow> int \<Rightarrow> bool" where
  "spec_reciprocal_overlap x1 x2 y1 y2 =
     (let overlap = max 0 (min x2 y2 - max x1 y1)
      in x2 - x1 \<le> 2 * overlap \<and> y2 - y1 \<le> 2 * overlap)"

text \<open>
  A scoper for two references (maximum distance 500, clustering distance 500) on
  chromosome 0, holding node 0: an insertion of length 100 at position 1000.
\<close>

definition pe_ins :: PairedEndScoper where
  "pe_ins = \<lparr>pe_clst_dist = 500, pe_max_dist = 500, pe_local_chrom = 0,
     pe_loci = [(1000, make_local_val 0 1000 0 INSERTION 100)],
     pe_chrom_scope = [[(1000, make_local_val 0 1000 0 INSERTION 100)], [], []],
     pe_norm = 100, pe_thresh = 3 / 10, pe_paired_end = True\<rparr>"

text \<open>
  The same scoper holding node 0 as a split read at 0:1000 whose partner is at 1:9000.
\<close>

definition pe_split :: PairedEndScoper where
  "pe_split = \<lparr>pe_clst_dist = 500, pe_max_dist = 500, pe_local_chrom = 0,
     pe_loci = [(1000, make_local_val 1 9000 0 SPLIT 0)],
     pe_chrom_scope = [[], [(9000, make_local_val 0 1000 0 SPLIT 0)], []],
     pe_norm = 100, pe_thresh = 3 / 10, pe_paired_end = True\<rparr>"

text \<open>What it means for a neighbour to be admitted to the exact bucket, as the specification words it.\<close>

definition spec_exact_accept :: "int \<Rightarrow> int \<Rightarrow> bool" where
  "spec_exact_accept len1 len2 \<longleftrightarrow> \<not> (len1 > 0 \<and> len2 > 0) \<or> span_distance len1 len2 < 8 / 10"

text \<open>No entry of the list is the given node: the invariant of the result vectors.\<close>

definition walk_excludes :: "int \<Rightarrow> walk_state \<Rightarrow> bool" where
  "walk_excludes n st \<longleftrightarrow> n \<notin> set (ws_found_exact st) \<and> n \<notin> set (ws_found2 st)"

section \<open>The graph\<close>

text \<open>
  Modelled from the spec: the graph class (\<open>map_set_utils.Py_SimpleGraph\<close>) is not among
  the sources at hand.  The specification reads: undirected, dense integer node ids,
  dedup-on-insert; \<open>add_node()\<close> returns a fresh id; \<open>add_edge(u,v,w)\<close> ignores
  duplicate pairs.  The model keeps the number of nodes and the list of the edges
  \<open>(u, v, w)\<close> in the order of their insertion; an edge joins its two ends in both
  directions.
\<close>

record Graph =
  g_n_nodes :: int
  g_edges :: "(int \<times> int \<times> int) list"

definition joins :: "int \<times> int \<times> int \<Rightarrow> int \<Rightarrow> int \<Rightarrow> bool" where
  "joins e u v \<longleftrightarrow> (fst e = u \<and> fst (snd e) = v) \<or> (fst e = v \<and> fst (snd e) = u)"

definition addNode :: "Graph \<Rightarrow> int \<times> Graph" where
  "addNode G = (g_n_nodes G, G\<lparr>g_n_nodes := g_n_nodes G + 1\<rparr>)"

definition hasEdge :: "Graph \<Rightarrow> int \<Rightarrow> int \<Rightarrow> bool" where
  "hasEdge G u v \<longleftrightarrow> (\<exists>e \<in> set (g_edges G). joins e u v)"

definition addEdge :: "Graph \<Rightarrow> int \<Rightarrow> int \<Rightarrow> int \<Rightarrow> Graph" where
  "addEdge G u v w = (if hasEdge G u v then G else G\<lparr>g_edges := g_edges G @ [(u, v, w)]\<rparr>)"

definition neighbors :: "Graph \<Rightarrow> int \<Rightarrow> int list" where
  "neighbors G u =
     map (\<lambda>e. if fst e = u then fst (snd e) else fst e)
       (filter (\<lambda>e. fst e = u \<or> fst (snd e) = u) (g_edges G))"

definition weight :: "Graph \<Rightarrow> int \<Rightarrow> int \<Rightarrow> int" where
  "weight G u v = (case find (\<lambda>e. joins e u v) (g_edges G) of
                     None \<Rightarrow> 0
                   | Some e \<Rightarrow> snd (snd e))"

definition graph_nodes :: "Graph \<Rightarrow> int set" where
  "graph_nodes G = fst ` set (g_edges G) \<union> (fst \<circ> snd) ` set (g_edges G)"

section \<open>graph.pyx: BFS\_local and get\_partitions\<close>

text \<open>
  The loop \<open>for v in G.neighbors(u)\<close> of \<open>BFS_local\<close>, over the neighbours still to
  come, on the pair of \<open>nodes_found\<close> and \<open>queue\<close>.  The sets \<open>visited\<close>, \<open>seen\<close>
  and \<open>nodes_found\<close> are lists here and are only ever asked for membership.
\<close>

fun BFS_scan ::
  "Graph \<Rightarrow> int list \<Rightarrow> int \<Rightarrow> int list \<Rightarrow> int list \<times> int list \<Rightarrow> int list \<times> int list" where
  "BFS_scan G visited u [] (nodes_found, queue) = (nodes_found, queue)"
| "BFS_scan G visited u (v # vs) (nodes_found, queue) =
     (if v \<notin> set visited then
        (if weight G u v > 1 then
           (let found1 = (if u \<notin> set nodes_found then nodes_found @ [u] else nodes_found)
            in if v \<notin> set found1
               then BFS_scan G visited u vs (found1 @ [v], queue @ [v])
               else BFS_scan G visited u vs (found1, queue))
         else BFS_scan G visited u vs (nodes_found, queue))
      else BFS_scan G visited u vs (nodes_found, queue))"

lemma BFS_scan_measure:
  assumes "set vs \<subseteq> V" and "finite V"
    and "BFS_scan G visited u vs (nodes_found, queue) = (found', queue')"
  shows "card (V - set found') + length queue' \<le> card (V - set nodes_found) + length queue"
  using assms
proof (induction vs arbitrary: nodes_found queue)
  case Nil
  then show ?case by simp
next
  case (Cons v vs)
  have vV: "v \<in> V" and sub: "set vs \<subseteq> V" using Cons.prems(1) by auto
  have mono: "card (V - set (xs @ [u])) \<le> card (V - set xs)" for xs
    by (intro card_mono) (use Cons.prems(2) in auto)
  have dec: "card (V - set (xs @ [v])) + 1 \<le> card (V - set xs)" if "v \<notin> set xs" for xs
  proof -
    have "V - set (xs @ [v]) = (V - set xs) - {v}" by auto
    moreover have "v \<in> V - set xs" using vV that by simp
    moreover have "finite (V - set xs)" using Cons.prems(2) by simp
    ultimately show ?thesis
      by (metis One_nat_def Suc_leI add.commute card_Diff1_less plus_1_eq_Suc)
  qed
  show ?case
  proof (cases "v \<notin> set visited \<and> weight G u v > 1")
    case False
    then have "BFS_scan G visited u vs (nodes_found, queue) = (found', queue')"
      using Cons.prems(3) by (auto split: if_splits)
    then show ?thesis using Cons.IH [OF sub Cons.prems(2)] by simp
  next
    case True
    define found1 where "found1 = (if u \<notin> set nodes_found then nodes_found @ [u] else nodes_found)"
    have f1: "card (V - set found1) \<le> card (V - set nodes_found)"
      using mono [of nodes_found] by (simp add: found1_def)
    show ?thesis
    proof (cases "v \<notin> set found1")
      case True
      then have "BFS_scan G visited u vs (found1 @ [v], queue @ [v]) = (found', queue')"
        using Cons.prems(3) \<open>v \<notin> set visited \<and> weight G u v > 1\<close>
        by (simp add: found1_def Let_def)
      then have "card (V - set found') + length queue'
                 \<le> card (V - set (found1 @ [v])) + length (queue @ [v])"
        by (rule Cons.IH [OF sub Cons.prems(2)])
      then show ?thesis using dec [OF True] f1 by simp
    next
      case False
      then have "BFS_scan G visited u vs (found1, queue) = (found', queue')"
        using Cons.prems(3) \<open>v \<notin> set visited \<and> weight G u v > 1\<close>
        by (simp add: found1_def Let_def)
      then have "card (V - set found') + length queue' \<le> card (V - set found1) + length queue"
        by (rule Cons.IH [OF sub Cons.prems(2)])
      then show ?thesis using f1 by simp
    qed
  qed
qed

lemma neighbors_in_graph_nodes: "set (neighbors G u) \<subseteq> graph_nodes G"
  by (auto simp: neighbors_def graph_nodes_def)

lemma finite_graph_nodes: "finite (graph_nodes G)"
  by (simp add: graph_nodes_def)

text \<open>
  The loop \<open>while queue\<close> of \<open>BFS_local\<close>.  It ends because every node that enters the
  queue is a node of the graph that was not found before.
\<close>

function BFS_loop :: "Graph \<Rightarrow> int list \<Rightarrow> int list \<Rightarrow> int list \<Rightarrow> int list \<times> int list" where
  "BFS_loop G [] nodes_found visited = (nodes_found, visited)"
| "BFS_loop G (u # queue) nodes_found visited =
     (case BFS_scan G visited u (neighbors G u) (nodes_found, queue) of
        (found', queue') \<Rightarrow> BFS_loop G queue' found' (u # visited))"
  by pat_completeness auto
termination
proof (relation "measure (\<lambda>(G, queue, nodes_found, visited).
                   card (graph_nodes G - set nodes_found) + length queue)", goal_cases)
  case 1
  show ?case by simp
next
  case (2 G u queue nodes_found visited found' queue')
  then have "BFS_scan G visited u (neighbors G u) (nodes_found, queue) = (found', queue')"
    by simp
  then have "card (graph_nodes G - set found') + length queue'
             \<le> card (graph_nodes G - set nodes_found) + length queue"
    by (rule BFS_scan_measure [OF neighbors_in_graph_nodes finite_graph_nodes])
  then show ?case by simp
qed

text \<open>\<open>BFS_local(G, source, visited)\<close> returns the nodes found and the updated \<open>visited\<close>.\<close>

definition BFS_local :: "Graph \<Rightarrow> int \<Rightarrow> int list \<Rightarrow> int list \<times> int list" where
  "BFS_local G source visited = BFS_loop G [source] [] visited"

text \<open>The inner loop of \<open>get_partitions\<close>, on the pair of \<open>seen\<close> and \<open>parts\<close>.\<close>

fun partitions_scan ::
  "Graph \<Rightarrow> int \<Rightarrow> int list \<Rightarrow> int list \<times> int list list \<Rightarrow> int list \<times> int list list" where
  "partitions_scan G u [] (seen, parts) = (seen, parts)"
| "partitions_scan G u (v # vs) (seen, parts) =
     (if v \<in> set seen then partitions_scan G u vs (seen, parts)
      else if weight G u v > 1 then
        (case BFS_local G u seen of
           (found, seen') \<Rightarrow>
             partitions_scan G u vs
               (seen', if length found \<noteq> 0 then parts @ [found] else parts))
      else partitions_scan G u vs (seen, parts))"

text \<open>The outer loop \<open>for u in nodes\<close>.\<close>

fun partitions_loop ::
  "Graph \<Rightarrow> int list \<Rightarrow> int list \<times> int list list \<Rightarrow> int list \<times> int list list" where
  "partitions_loop G [] (seen, parts) = (seen, parts)"
| "partitions_loop G (u # nodes) (seen, parts) =
     (if u \<in> set seen then partitions_loop G nodes (seen, parts)
      else (case partitions_scan G u (neighbors G u) (seen, parts) of
              (seen', parts') \<Rightarrow> partitions_loop G nodes (u # seen', parts')))"

definition get_partitions :: "Graph \<Rightarrow> int list \<Rightarrow> int list list" where
  "get_partitions G nodes = snd (partitions_loop G nodes ([], []))"

text \<open>
  The edges that the search may follow, those of weight above 1, as a relation, and the
  set of the nodes joined to \<open>u\<close> by paths of such edges.
\<close>

definition strong :: "Graph \<Rightarrow> (int \<times> int) set" where
  "strong G = {(u, v). v \<in> set (neighbors G u) \<and> weight G u v > 1}"

definition strong_component :: "Graph \<Rightarrow> int \<Rightarrow> int set" where
  "strong_component G u = {v. (u, v) \<in> (strong G)\<^sup>*}"

text \<open>
  Example of the specification: nodes \<open>a, b, c, d\<close> as 0 to 3, edges \<open>(a,b,2)\<close>,
  \<open>(c,d,2)\<close> and \<open>(b,c,1)\<close>.
\<close>

definition G_abcd :: Graph where
  "G_abcd = \<lparr>g_n_nodes = 4, g_edges = [(0, 1, 2), (2, 3, 2), (1, 2, 1)]\<rparr>"

text \<open>A set of nodes that no edge of weight above 1 leaves.\<close>

definition closed_under :: "Graph \<Rightarrow> int set \<Rightarrow> bool" where
  "closed_under G S \<longleftrightarrow> (\<forall>x y. x \<in> S \<and> (x, y) \<in> strong G \<longrightarrow> y \<in> S)"

text \<open>
  The invariant of the loop of \<open>BFS_local\<close>, for a search from \<open>source\<close> that started
  with the visited set \<open>S0\<close>; \<open>C\<close> is the strong component of \<open>source\<close>.
\<close>

definition BFS_inv ::
  "Graph \<Rightarrow> int \<Rightarrow> int set \<Rightarrow> int list \<Rightarrow> int list \<Rightarrow> int list \<Rightarrow> bool" where
  "BFS_inv G source S0 queue nodes_found visited \<longleftrightarrow>
     (let C = strong_component G source
      in set queue \<subseteq> C \<and> set nodes_found \<subseteq> C
       \<and> set visited \<inter> C \<subseteq> set nodes_found
       \<and> set nodes_found \<subseteq> set queue \<union> set visited
       \<and> (\<forall>x \<in> set visited \<inter> C. \<forall>y. (x, y) \<in> strong G \<longrightarrow> y \<in> set nodes_found)
       \<and> set queue \<subseteq> insert source (set nodes_found)
       \<and> (source \<in> set nodes_found
            \<or> (nodes_found = [] \<and> queue = [source] \<and> set visited \<inter> C = {}))
       \<and> S0 \<subseteq> set visited \<and> set visited \<subseteq> S0 \<union> C)"

text \<open>
  The invariant of \<open>get_partitions\<close>: \<open>seen\<close> is closed, and every partition is the
  strong component of one of its own nodes, lies inside \<open>seen\<close> and is disjoint from
  the partitions before it.
\<close>

definition parts_inv :: "Graph \<Rightarrow> int set \<Rightarrow> int list list \<Rightarrow> bool" where
  "parts_inv G S parts \<longleftrightarrow>
     closed_under G S
     \<and> (\<forall>P \<in> set parts. P \<noteq> [] \<and> set P \<subseteq> S \<and> (\<forall>u \<in> set P. set P = strong_component G u))
     \<and> (\<forall>i j. i < j \<and> j < length parts \<longrightarrow> set (parts ! i) \<inter> set (parts ! j) = {})"

section \<open>graph.pyx: add\_to\_graph and process\_alignment\<close>

text \<open>\<open>GenomeScanner.add_to_buffer\<close> works on four more fields of the scanner.\<close>

record read_buffer_state =
  rb_first :: int
  rb_read_buffer :: "(int \<times> alignment) list"
  rb_buff_size :: int
  rb_no_tell :: bool

datatype pa_error = BufferError | IndexError | OutOfRange

definition add_to_buffer ::
  "read_buffer_state \<Rightarrow> alignment \<Rightarrow> int \<Rightarrow> int \<Rightarrow> pa_error + read_buffer_state" where
  "add_to_buffer self r n1 tell =
     (if rb_first self = 1 \<or> tell = -1
      then Inr (self\<lparr>rb_read_buffer := dict_set n1 r (rb_read_buffer self), rb_first := 0\<rparr>)
      else if int (length (rb_read_buffer self)) < rb_buff_size self
      then Inr (self\<lparr>rb_read_buffer := dict_set n1 r (rb_read_buffer self)\<rparr>)
      else if rb_no_tell self then Inl BufferError
      else Inr self)"

text \<open>
  \<open>NodeToName.append\<close>: the vectors hold unsigned integers of 64, 16, 32, 16 and 64
  bits, a signed \<open>cigar_index\<close> and an unsigned 32-bit \<open>event_pos\<close>; a \<open>tell\<close> of -1
  is stored as 0.
\<close>

definition NodeToName_append ::
  "node_info list \<Rightarrow> nat \<Rightarrow> int \<Rightarrow> int \<Rightarrow> int \<Rightarrow> int \<Rightarrow> int \<Rightarrow> int \<Rightarrow> node_info list" where
  "NodeToName_append self a b c d e f g =
     self @ [\<lparr>nn_h = a mod 2 ^ 64, nn_f = b mod 2 ^ 16, nn_p = c mod 2 ^ 32, nn_c = d mod 2 ^ 16,
              nn_t = (if e = -1 then 0 else e) mod 2 ^ 64, nn_cigar_index = f,
              nn_event_pos = g mod 2 ^ 32\<rparr>]"

text \<open>
  \<open>TemplateEdges.add\<close>: the triple \<open>(query_start, node, flag)\<close> is appended to the flat
  vector kept for the template name.
\<close>

definition TemplateEdges_add ::
  "(string \<times> int list) list \<Rightarrow> string \<Rightarrow> int \<Rightarrow> int \<Rightarrow> int \<Rightarrow> (string \<times> int list) list" where
  "TemplateEdges_add templates_s template_name flg node query_start =
     dict_set template_name
       ((case map_of templates_s template_name of None \<Rightarrow> [] | Some val \<Rightarrow> val)
          @ [query_start, node, flg])
       templates_s"

text \<open>
  One entry of the list that \<open>alignments_from_sa_tag\<close> returns: query start and end,
  reference start and end, chromosome, mapping quality, and whether the strand is that
  of the record.
\<close>

record query_align =
  qa_query_start :: int
  qa_query_end :: int
  qa_ref_start :: int
  qa_ref_end :: int
  qa_chrom :: int
  qa_mapq :: int
  qa_same_strand :: bool

text \<open>
  \<open>connect_right\<close> and \<open>connect_left\<close> return \<open>(event_pos, chrom, pos2, chrom2, type)\<close>,
  the type being \<open>BREAKEND\<close> or 0, which is \<open>DISCORDANT\<close>.
\<close>

definition connect_right ::
  "query_align \<Rightarrow> query_align \<Rightarrow> alignment \<Rightarrow> int \<Rightarrow> int \<Rightarrow> int \<Rightarrow>
   int \<times> int \<times> int \<times> int \<times> ReadEnum_t" where
  "connect_right a b r paired max_dist mq_thresh =
     (let event_pos = qa_ref_end a; chrom = qa_chrom a; pos2 = qa_ref_start b;
          pos2_end = qa_ref_end b; chrom2 = qa_chrom b; pos2_mq = qa_mapq b;
          same_strand = qa_same_strand b
      in if pos2_mq < mq_thresh then (event_pos, chrom, event_pos, chrom, BREAKEND)
         else if paired \<noteq> 0 \<and> flag r AND 2304 = 0 \<and> flag r AND 2 \<noteq> 0 \<and> pnext r \<ge> event_pos \<and>
                 (chrom \<noteq> chrom2 \<or> \<bar>pos2 - event_pos\<bar> > max_dist)
         then (event_pos, chrom, event_pos, chrom, BREAKEND)
         else if same_strand then (event_pos, chrom, pos2, chrom2, DISCORDANT)
         else (event_pos, chrom, pos2_end, chrom2, DISCORDANT))"

definition connect_left ::
  "query_align \<Rightarrow> query_align \<Rightarrow> alignment \<Rightarrow> int \<Rightarrow> int \<Rightarrow> int \<Rightarrow>
   int \<times> int \<times> int \<times> int \<times> ReadEnum_t" where
  "connect_left a b r paired max_dist mq_thresh =
     (let event_pos = qa_ref_start a; chrom = qa_chrom a; pos2 = qa_ref_end b;
          chrom2 = qa_chrom b; pos2_mq = qa_mapq b
      in if pos2_mq < mq_thresh then (event_pos, chrom, event_pos, chrom, BREAKEND)
         else if paired \<noteq> 0 \<and> flag r AND 2304 = 0 \<and> flag r AND 2 \<noteq> 0 \<and> pnext r \<le> event_pos \<and>
                 (chrom \<noteq> chrom2 \<or> \<bar>pos2 - event_pos\<bar> > max_dist)
         then (event_pos, chrom, event_pos, chrom, BREAKEND)
         else (event_pos, chrom, pos2, chrom2, DISCORDANT))"

text \<open>
  The collaborators of the graph builder that are outside the two source files, or whose
  inner working plays no part here, are parameters of the model: the hash of the query name, the
  interval query of \<open>io_funcs\<close> on the regions of interest, \<open>good_quality_clip\<close>,
  \<open>cigar_clip\<close>, \<open>alignments_from_sa_tag\<close> (the parsed SA tag, with the index of the
  record itself), \<open>ClipScoper.update\<close> (it returns the clustered nodes), and the two
  methods of \<open>SiteAdder\<close>; \<open>'cs\<close> and \<open>'sa\<close> are the states of the clip scoper and of the
  site adder.
\<close>

record ('cs, 'sa) collaborators =
  x_msu :: map_set_utils
  x_xxhasher :: "string \<Rightarrow> nat"
  x_intersecter_int_chrom :: "int \<Rightarrow> int \<Rightarrow> int \<Rightarrow> bool"
  x_good_quality_clip :: "alignment \<Rightarrow> int \<Rightarrow> bool"
  x_cigar_clip :: "alignment \<Rightarrow> int \<Rightarrow> bool"
  x_alignments_from_sa_tag :: "alignment \<Rightarrow> int \<Rightarrow> int \<Rightarrow> int \<Rightarrow> query_align list \<times> nat"
  x_clip_scope_update :: "'cs \<Rightarrow> alignment \<Rightarrow> int \<Rightarrow> int \<Rightarrow> int \<Rightarrow> 'cs \<times> int list"
  x_add_any_sites ::
    "'sa \<Rightarrow> int \<Rightarrow> int \<Rightarrow> Graph \<Rightarrow> PairedEndScoper \<Rightarrow> node_info list \<Rightarrow> int \<Rightarrow>
     'sa \<times> Graph \<times> PairedEndScoper \<times> node_info list"
  x_find_nearest_site :: "'sa \<Rightarrow> int \<Rightarrow> int \<Rightarrow> 'sa \<times> int"

text \<open>
  The objects that \<open>process_alignment\<close> and \<open>add_to_graph\<close> receive by reference and
  may change.
\<close>

record ('cs, 'sa) engine =
  e_G :: Graph
  e_pe_scope :: PairedEndScoper
  e_template_edges :: "(string \<times> int list) list"
  e_node_to_name :: "node_info list"
  e_genome_scanner :: read_buffer_state
  e_clip_scope :: 'cs
  e_bad_clip_counter :: "(int \<times> int) list"
  e_site_adder :: "'sa option"

text \<open>
  \<open>for other_node in other_nodes: if not G.hasEdge(node_name, other_node):
  G.addEdge(node_name, other_node, w)\<close>
\<close>

fun add_edges_to :: "Graph \<Rightarrow> int \<Rightarrow> int list \<Rightarrow> int \<Rightarrow> Graph" where
  "add_edges_to G node_name [] w = G"
| "add_edges_to G node_name (other_node # other_nodes) w =
     add_edges_to
       (if \<not> hasEdge G node_name other_node then addEdge G node_name other_node w else G)
       node_name other_nodes w"

definition cluster_clipped ::
  "('cs, 'sa) collaborators \<Rightarrow> Graph \<Rightarrow> alignment \<Rightarrow> 'cs \<Rightarrow> int \<Rightarrow> int \<Rightarrow> int \<Rightarrow> Graph \<times> 'cs" where
  "cluster_clipped X G r clip_scope chrom pos' node_name =
     (case x_clip_scope_update X clip_scope r node_name chrom pos' of
        (clip_scope', clustered_nodes) \<Rightarrow> (add_edges_to G node_name clustered_nodes 2, clip_scope'))"

text \<open>The last block of \<open>add_to_graph\<close>: the links of weight 0 to the nearest sites.\<close>

definition link_sites ::
  "('cs, 'sa) collaborators \<Rightarrow> Graph \<Rightarrow> 'sa \<Rightarrow> int \<Rightarrow> int \<Rightarrow> int \<Rightarrow> int \<Rightarrow> int \<Rightarrow> Graph \<times> 'sa" where
  "link_sites X G site_adder node_name chrom event_pos chrom2 pos2 =
     (case x_find_nearest_site X site_adder chrom event_pos of
        (sa1, bnd_site_node) \<Rightarrow>
          (let G1 = (if bnd_site_node \<ge> 0 \<and> \<not> hasEdge G node_name bnd_site_node
                     then addEdge G node_name bnd_site_node 0 else G)
           in case x_find_nearest_site X sa1 chrom2 pos2 of
                (sa2, bnd_site_node2) \<Rightarrow>
                  (if bnd_site_node \<noteq> bnd_site_node2 \<and> bnd_site_node2 \<ge> 0 \<and>
                      \<not> hasEdge G1 node_name bnd_site_node2
                   then (addEdge G1 node_name bnd_site_node2 0, sa2)
                   else (G1, sa2))))"

text \<open>An error ends the function; otherwise the next step runs on the new state.\<close>

definition err_bind :: "pa_error + 'a \<Rightarrow> ('a \<Rightarrow> pa_error + 'b) \<Rightarrow> pa_error + 'b" where
  "err_bind m k = (case m of Inl err \<Rightarrow> Inl err | Inr x \<Rightarrow> k x)"

text \<open>
  The steps of \<open>add_to_graph\<close> after the new node is registered: the partners from the
  paired-end scoper or from the clip scoper, the entry in the paired-end scoper, and the
  links to sites.
\<close>

definition link_partners ::
  "('cs, 'sa) collaborators \<Rightarrow> ('cs, 'sa) engine \<Rightarrow> alignment \<Rightarrow> int \<Rightarrow> int \<Rightarrow> int \<Rightarrow> int \<Rightarrow> int \<Rightarrow>
   ReadEnum_t \<Rightarrow> bool \<Rightarrow> int \<Rightarrow> int \<Rightarrow> bool \<Rightarrow> pa_error + ('cs, 'sa) engine" where
  "link_partners X E r node_name chrom event_pos chrom2 pos2 read_enum mm_only clip_l
     length_from_cigar trust_ins_len =
     (if read_enum \<noteq> BREAKEND \<and> \<not> mm_only then
        (case find_other_nodes (x_msu X) (e_pe_scope E) node_name chrom event_pos chrom2 pos2
                read_enum length_from_cigar trust_ins_len of
           None \<Rightarrow> Inl OutOfRange
         | Some (pe1, other_nodes) \<Rightarrow>
             Inr (E\<lparr>e_pe_scope := pe1, e_G := add_edges_to (e_G E) node_name other_nodes 2\<rparr>))
      else if chrom \<noteq> chrom2 \<and> clip_l \<noteq> -1 then
        (case cluster_clipped X (e_G E) r (e_clip_scope E) chrom event_pos node_name of
           (G2, cs2) \<Rightarrow> Inr (E\<lparr>e_G := G2, e_clip_scope := cs2\<rparr>))
      else Inr E)"

definition record_item ::
  "('cs, 'sa) engine \<Rightarrow> int \<Rightarrow> int \<Rightarrow> int \<Rightarrow> int \<Rightarrow> int \<Rightarrow> ReadEnum_t \<Rightarrow> bool \<Rightarrow> int \<Rightarrow>
   pa_error + ('cs, 'sa) engine" where
  "record_item E node_name chrom event_pos chrom2 pos2 read_enum mm_only length_from_cigar =
     (if \<not> mm_only \<and> read_enum \<noteq> BREAKEND then
        (case add_item (e_pe_scope E) node_name chrom event_pos chrom2 pos2 read_enum
                length_from_cigar of
           None \<Rightarrow> Inl OutOfRange
         | Some pe2 \<Rightarrow> Inr (E\<lparr>e_pe_scope := pe2\<rparr>))
      else Inr E)"

definition link_to_sites ::
  "('cs, 'sa) collaborators \<Rightarrow> ('cs, 'sa) engine \<Rightarrow> int \<Rightarrow> int \<Rightarrow> int \<Rightarrow> int \<Rightarrow> int \<Rightarrow>
   ReadEnum_t \<Rightarrow> ('cs, 'sa) engine" where
  "link_to_sites X E node_name chrom event_pos chrom2 pos2 read_enum =
     (case e_site_adder E of
        None \<Rightarrow> E
      | Some sa \<Rightarrow>
          (if read_enum = BREAKEND \<or> read_enum = SPLIT then
             (case link_sites X (e_G E) sa node_name chrom event_pos chrom2 pos2 of
                (G4, sa4) \<Rightarrow> E\<lparr>e_G := G4, e_site_adder := Some sa4\<rparr>)
           else E))"

definition add_to_graph ::
  "('cs, 'sa) collaborators \<Rightarrow> ('cs, 'sa) engine \<Rightarrow> alignment \<Rightarrow> int \<Rightarrow> int \<Rightarrow> int \<Rightarrow> int \<Rightarrow> int \<Rightarrow>
   int \<Rightarrow> int \<Rightarrow> ReadEnum_t \<Rightarrow> bool \<Rightarrow> bool \<Rightarrow> bool \<Rightarrow> int \<Rightarrow> int \<Rightarrow> bool \<Rightarrow>
   pa_error + ('cs, 'sa) engine" where
  "add_to_graph X E r flg chrom tell cigar_index event_pos chrom2 pos2 read_enum
     p1_overlaps p2_overlaps mm_only clip_l length_from_cigar trust_ins_len =
     (case addNode (e_G E) of
        (node_name, G1) \<Rightarrow>
          (let v = x_xxhasher X (qname r);
               ntn1 = NodeToName_append (e_node_to_name E) v flg (pos r) chrom tell cigar_index
                        event_pos
           in err_bind (add_to_buffer (e_genome_scanner E) r node_name tell)
                (\<lambda>gs1.
                   let te1 = (if ReadEnum_value read_enum < 2
                              then TemplateEdges_add (e_template_edges E) (qname r) flg node_name
                                     (query_alignment_start r)
                              else e_template_edges E);
                       E1 = E\<lparr>e_G := G1, e_node_to_name := ntn1, e_genome_scanner := gs1,
                               e_template_edges := te1\<rparr>
                   in err_bind
                        (link_partners X E1 r node_name chrom event_pos chrom2 pos2 read_enum
                           mm_only clip_l length_from_cigar trust_ins_len)
                        (\<lambda>E2.
                           err_bind
                             (record_item E2 node_name chrom event_pos chrom2 pos2 read_enum
                                mm_only length_from_cigar)
                             (\<lambda>E3.
                                Inr (link_to_sites X E3 node_name chrom event_pos chrom2 pos2
                                       read_enum))))))"

text \<open>Python indexing of a list: a negative index counts from the end.\<close>

definition py_index :: "'a list \<Rightarrow> int \<Rightarrow> 'a option" where
  "py_index xs i =
     (let j = (if i < 0 then int (length xs) + i else i)
      in if 0 \<le> j \<and> j < int (length xs) then Some (xs ! nat j) else None)"

text \<open>\<open>r.cigartuples[cigar_index][0]\<close>\<close>

definition cigar_op_at :: "alignment \<Rightarrow> int \<Rightarrow> int option" where
  "cigar_op_at r cigar_index =
     (case cigartuples r of
        None \<Rightarrow> None
      | Some ct \<Rightarrow> map_option fst (py_index ct cigar_index))"

text \<open>
  The paired-end branch of \<open>process_alignment\<close>, after the site adder: the locals
  \<open>event_pos, chrom, pos2, chrom2, cigar_index, read_enum\<close> as the SA tag leaves them,
  or \<open>None\<close> for the early return on a list of one alignment.
\<close>

definition split_by_SA ::
  "('cs, 'sa) collaborators \<Rightarrow> alignment \<Rightarrow> int \<Rightarrow> int \<Rightarrow> int \<Rightarrow>
   int \<times> int \<times> int \<times> int \<times> int \<times> ReadEnum_t \<Rightarrow>
   pa_error + (int \<times> int \<times> int \<times> int \<times> int \<times> ReadEnum_t) option" where
  "split_by_SA X r loci_dist paired_end mapq_thresh locals =
     (case x_alignments_from_sa_tag X r loci_dist paired_end mapq_thresh of
        (all_aligns, index) \<Rightarrow>
          (if index \<ge> length all_aligns then Inl IndexError
           else if length all_aligns = 1 then Inr None
           else
             (let l1 = (if index < length all_aligns - 1 then
                          (case connect_right (all_aligns ! index) (all_aligns ! (index + 1)) r
                                  paired_end loci_dist mapq_thresh of
                             (event_pos, chrom, pos2, chrom2, inferred_clip_type) \<Rightarrow>
                               (event_pos, chrom, pos2, chrom2,
                                (case cigartuples r of None \<Rightarrow> -1
                                 | Some ct \<Rightarrow> int (length ct) - 1),
                                (if inferred_clip_type = BREAKEND then BREAKEND
                                 else snd (snd (snd (snd (snd locals)))))))
                        else locals);
                  l2 = (if index > 0 then
                          (case connect_left (all_aligns ! index) (all_aligns ! (index - 1)) r
                                  paired_end loci_dist mapq_thresh of
                             (event_pos, chrom, pos2, chrom2, inferred_clip_type) \<Rightarrow>
                               (event_pos, chrom, pos2, chrom2, 0,
                                (if inferred_clip_type = BREAKEND then BREAKEND
                                 else snd (snd (snd (snd (snd l1)))))))
                        else l1)
              in Inr (Some l2))))"

text \<open>
  The paired-end branch of \<open>process_alignment\<close>, from \<open>pnext = r.pnext\<close> to the call of
  \<open>add_to_graph\<close>.
\<close>

definition process_paired ::
  "('cs, 'sa) collaborators \<Rightarrow> ('cs, 'sa) engine \<Rightarrow> alignment \<Rightarrow> int \<Rightarrow> int \<Rightarrow> int \<Rightarrow> int \<Rightarrow> int \<Rightarrow>
   int \<Rightarrow> int \<Rightarrow> int \<Rightarrow> ReadEnum_t \<Rightarrow> bool \<Rightarrow> int \<Rightarrow> bool \<Rightarrow> pa_error + ('cs, 'sa) engine" where
  "process_paired X E r clip_l loci_dist cigar_index event_pos paired_end tell cigar_pos2
     mapq_thresh read_enum mm_only length_from_cigar trust_ins_len =
     (let chrom = rname r; flg = flag r; chrom2 = rnext r; pos2 = pnext r;
          current_overlaps_roi = x_intersecter_int_chrom X (rname r) event_pos (event_pos + 1);
          next_overlaps_roi = (if current_overlaps_roi
                               then x_intersecter_int_chrom X chrom2 pos2 (pnext r + 1)
                               else False);
          good_clip = x_good_quality_clip X r 15;
          E1 = (if \<not> good_clip
                then E\<lparr>e_bad_clip_counter := e_bad_clip_counter E @ [(chrom, pos r)]\<rparr>
                else E)
      in err_bind
           (if read_enum = SPLIT \<and> has_SA r \<and> good_clip
            then split_by_SA X r loci_dist paired_end mapq_thresh
                   (event_pos, chrom, pos2, chrom2, cigar_index, read_enum)
            else Inr (Some (event_pos, chrom, pos2, chrom2, cigar_index, read_enum)))
           (\<lambda>res. case res of
              None \<Rightarrow> Inr E1
            | Some (event_pos, chrom, pos2, chrom2, cigar_index, read_enum) \<Rightarrow>
                (if read_enum = BREAKEND \<and> mm_only \<and> current_overlaps_roi \<and> next_overlaps_roi
                 then Inr E1
                 else
                   (case (if read_enum = BREAKEND \<and> good_clip \<and> x_cigar_clip X r clip_l
                          then (10000000, event_pos) else (chrom2, pos2)) of
                      (chrom2, pos2) \<Rightarrow>
                        err_bind
                          (if read_enum = DELETION \<or> read_enum = INSERTION then
                             (case cigar_op_at r cigar_index of
                                None \<Rightarrow> Inl IndexError
                              | Some opp \<Rightarrow>
                                  Inr (chrom, if opp \<noteq> 1 then cigar_pos2 else event_pos))
                           else Inr (chrom2, pos2))
                          (\<lambda>(chrom2, pos2).
                             add_to_graph X E1 r flg chrom tell cigar_index event_pos chrom2 pos2
                               read_enum current_overlaps_roi next_overlaps_roi mm_only clip_l
                               length_from_cigar trust_ins_len)))))"

text \<open>The single-end branch.\<close>

definition process_single ::
  "('cs, 'sa) collaborators \<Rightarrow> ('cs, 'sa) engine \<Rightarrow> alignment \<Rightarrow> int \<Rightarrow> int \<Rightarrow> int \<Rightarrow> int \<Rightarrow> int \<Rightarrow>
   int \<Rightarrow> int \<Rightarrow> int \<Rightarrow> ReadEnum_t \<Rightarrow> bool \<Rightarrow> int \<Rightarrow> bool \<Rightarrow> pa_error + ('cs, 'sa) engine" where
  "process_single X E r clip_l loci_dist cigar_index event_pos paired_end tell cigar_pos2
     mapq_thresh read_enum mm_only length_from_cigar trust_ins_len =
     (let chrom = rname r; flg = flag r
      in if read_enum = SPLIT then
           (if has_SA r then
              (case x_alignments_from_sa_tag X r loci_dist paired_end mapq_thresh of
                 (all_aligns, index) \<Rightarrow>
                   (if index \<ge> length all_aligns then Inl IndexError
                    else if length all_aligns = 1 then Inr E
                    else
                      err_bind
                        (if index < length all_aligns - 1 then
                           (case connect_right (all_aligns ! index) (all_aligns ! (index + 1)) r
                                   paired_end loci_dist mapq_thresh of
                              (event_pos, chrom, pos2, chrom2, _) \<Rightarrow>
                                add_to_graph X E r flg chrom tell 0 event_pos chrom2 pos2
                                  read_enum False False mm_only clip_l 0 trust_ins_len)
                         else Inr E)
                        (\<lambda>E1.
                           if index > 0 then
                             (case connect_left (all_aligns ! index) (all_aligns ! (index - 1)) r
                                     paired_end loci_dist mapq_thresh of
                                (event_pos, chrom, pos2, chrom2, _) \<Rightarrow>
                                  add_to_graph X E1 r flg chrom tell
                                    (case cigartuples r of None \<Rightarrow> -1
                                     | Some ct \<Rightarrow> int (length ct) - 1)
                                    event_pos chrom2 pos2 read_enum False False mm_only clip_l
                                    length_from_cigar trust_ins_len)
                           else Inr E1)))
            else Inr E)
         else if ReadEnum_value read_enum \<ge> 2 then
           (case cigar_op_at r cigar_index of
              None \<Rightarrow> Inl IndexError
            | Some opp \<Rightarrow>
                add_to_graph X E r flg chrom tell cigar_index event_pos (rname r)
                  (if opp \<noteq> 1 then cigar_pos2 else event_pos)
                  read_enum False False mm_only clip_l length_from_cigar trust_ins_len)
         else Inr E)"

text \<open>
  \<open>process_alignment\<close> returns the objects it was given, changed or not, or the error it
  raised.  \<open>paired_end\<close> is a C integer used as a truth value.
\<close>

definition process_alignment ::
  "('cs, 'sa) collaborators \<Rightarrow> ('cs, 'sa) engine \<Rightarrow> alignment \<Rightarrow> int \<Rightarrow> int \<Rightarrow> int \<Rightarrow> int \<Rightarrow> int \<Rightarrow>
   int \<Rightarrow> int \<Rightarrow> int \<Rightarrow> int \<Rightarrow> ReadEnum_t \<Rightarrow> bool \<Rightarrow> int \<Rightarrow> bool \<Rightarrow>
   pa_error + ('cs, 'sa) engine" where
  "process_alignment X E r clip_l loci_dist clustering_dist cigar_index event_pos paired_end tell
     cigar_pos2 mapq_thresh read_enum mm_only length_from_cigar trust_ins_len =
     (if paired_end \<noteq> 0 \<and> read_enum = SPLIT \<and> flag r AND 8 \<noteq> 0 then Inr E
      else
        (let E1 = (case e_site_adder E of
                     None \<Rightarrow> E
                   | Some sa \<Rightarrow>
                       (case x_add_any_sites X sa (rname r) event_pos (e_G E) (e_pe_scope E)
                               (e_node_to_name E) clustering_dist of
                          (sa', G', pe', ntn') \<Rightarrow>
                            E\<lparr>e_site_adder := Some sa', e_G := G', e_pe_scope := pe',
                              e_node_to_name := ntn'\<rparr>))
         in if paired_end \<noteq> 0 \<or> flag r AND 1 \<noteq> 0
            then process_paired X E1 r clip_l loci_dist cigar_index event_pos paired_end tell
                   cigar_pos2 mapq_thresh read_enum mm_only length_from_cigar trust_ins_len
            else process_single X E1 r clip_l loci_dist cigar_index event_pos paired_end tell
                   cigar_pos2 mapq_thresh read_enum mm_only length_from_cigar trust_ins_len))"

subsection \<open>Example inputs for the graph builder\<close>

text \<open>
  Collaborators that find nothing: no region of interest, every clip good, no SA
  alignments, no clustered clips, no sites.
\<close>

definition X0 :: "(unit, unit) collaborators" where
  "X0 = \<lparr>x_msu = \<lparr>is_reciprocal_overlapping = spec_reciprocal_overlap,
                   span_position_distance = (\<lambda>_ _ _ _ _ _ _ _ _ _ _. False)\<rparr>,
         x_xxhasher = length,
         x_intersecter_int_chrom = (\<lambda>_ _ _. False),
         x_good_quality_clip = (\<lambda>_ _. True),
         x_cigar_clip = (\<lambda>_ _. False),
         x_alignments_from_sa_tag = (\<lambda>_ _ _ _. ([], 0)),
         x_clip_scope_update = (\<lambda>cs _ _ _ _. (cs, [])),
         x_add_any_sites = (\<lambda>sa _ _ G pe ntn _. (sa, G, pe, ntn)),
         x_find_nearest_site = (\<lambda>sa _ _. (sa, -1))\<rparr>"

text \<open>
  An engine that holds node 0, a split read at 0:1000 with its partner at 1:9000, and a
  paired record at 0:1005 whose mate is at 1:8997.
\<close>

definition E0 :: "(unit, unit) engine" where
  "E0 = \<lparr>e_G = \<lparr>g_n_nodes = 1, g_edges = []\<rparr>, e_pe_scope = pe_split,
         e_template_edges = [(''r0'', [0, 0, 97])],
         e_node_to_name = [\<lparr>nn_h = 2, nn_f = 97, nn_p = 1000, nn_c = 0, nn_t = 0,
                             nn_cigar_index = -1, nn_event_pos = 1000\<rparr>],
         e_genome_scanner = \<lparr>rb_first = 0, rb_read_buffer = [], rb_buff_size = 0,
                              rb_no_tell = False\<rparr>,
         e_clip_scope = (), e_bad_clip_counter = [], e_site_adder = None\<rparr>"

definition aln1 :: alignment where
  "aln1 = \<lparr>qname = ''r1'', flag = 97, rname = 0, pos = 1005, rnext = 1, pnext = 8997,
     cigartuples = Some [(0, 100)], seq = Some ''ACGT'', reference_end = 1105,
     query_alignment_start = 0, has_SA = False\<rparr>"

text \<open>
  The graph \<open>G'\<close> is \<open>G\<close> with edges appended that all satisfy \<open>ok\<close>, and has the
  same nodes.
\<close>

definition edges_extended :: "Graph \<Rightarrow> Graph \<Rightarrow> (int \<times> int \<times> int \<Rightarrow> bool) \<Rightarrow> bool" where
  "edges_extended G G' ok \<longleftrightarrow>
     (\<exists>new. g_edges G' = g_edges G @ new \<and> (\<forall>e \<in> set new. ok e)) \<and> g_n_nodes G' = g_n_nodes G"

section \<open>Properties of \_add\_to\_bin\_buffer\<close>



text \<open>
  The over-coverage branch always adds exactly one to \<open>gs_reads_dropped\<close>, whatever the
  current bin held: the bin is emptied before its length is read.
\<close>

lemma drop_current_bin_effect:
  "gs_current_bin (drop_current_bin self) = []
   \<and> gs_reads_dropped (drop_current_bin self) = gs_reads_dropped self + 1
   \<and> gs_staged_reads (drop_current_bin self) = gs_staged_reads self"
  by (simp add: drop_current_bin_def Let_def)

lemma select_cov_array_fields:
  "gs_current_chrom (select_cov_array self rn) = rn
   \<and> gs_current_pos (select_cov_array self rn) = gs_current_pos self
   \<and> gs_current_bin (select_cov_array self rn) = gs_current_bin self
   \<and> gs_staged_reads (select_cov_array self rn) = gs_staged_reads self
   \<and> gs_reads_dropped (select_cov_array self rn) = gs_reads_dropped self
   \<and> gs_max_cov (select_cov_array self rn) = gs_max_cov self
   \<and> gs_overlap_regions (select_cov_array self rn) = gs_overlap_regions self"
  by (simp add: select_cov_array_def)

lemma ensure_depth_fields:
  "gs_current_chrom (ensure_depth self rn) = gs_current_chrom self
   \<and> gs_current_pos (ensure_depth self rn) = gs_current_pos self
   \<and> gs_current_bin (ensure_depth self rn) = gs_current_bin self
   \<and> gs_staged_reads (ensure_depth self rn) = gs_staged_reads self
   \<and> gs_reads_dropped (ensure_depth self rn) = gs_reads_dropped self
   \<and> gs_max_cov (ensure_depth self rn) = gs_max_cov self
   \<and> gs_overlap_regions (ensure_depth self rn) = gs_overlap_regions self"
  by (simp add: ensure_depth_def Let_def)

text \<open>
  C3.  Whenever the over-coverage rule fires (the record passes the filter, it falls in
  the current bin, the depth returned by \<open>add_coverage\<close> has reached \<open>gs_max_cov\<close>
  and the position is in no region of interest), the current bin and the incoming read
  are discarded, nothing is staged, and \<open>gs_reads_dropped\<close> grows by exactly one,
  whatever the number of reads the discarded bin held.
\<close>

theorem over_coverage_drops_exactly_one:
  assumes "flag a AND 1540 = 0" and "cigartuples a \<noteq> None" and "seq a \<noteq> None"
    and "gs_current_cov_array (select_cov_array (ensure_depth self (rname a)) (rname a)) = Some k"
    and "gs_depth_d (select_cov_array (ensure_depth self (rname a)) (rname a)) k = Some arr"
    and "add_coverage (pos a) (reference_end a) arr = Some (cov, arr')"
    and "c_int_cast (real_of_int (pos a) / 100) = gs_current_pos self"
    and "real_of_int (gs_max_cov self) \<le> cov"
    and "case gs_overlap_regions self of None \<Rightarrow> True
         | Some isect \<Rightarrow> \<not> isect (rname a) (pos a) (pos a + 1)"
  shows "\<exists>s'. add_to_bin_buffer self a tell = Some s' \<and> gs_current_bin s' = []
            \<and> gs_staged_reads s' = gs_staged_reads self
            \<and> gs_reads_dropped s' = gs_reads_dropped self + 1"
  using assms
  by (simp add: add_to_bin_buffer_def Let_def drop_current_bin_effect
      select_cov_array_fields ensure_depth_fields split: option.splits)

text \<open>
  The rule at a concrete input: the current bin holds two reads, the incoming read
  falls in the same bin and lifts its depth to the cap; \<open>gs_reads_dropped\<close> goes from 0
  to 1, not to 3.
\<close>

theorem over_coverage_drops_exactly_one_witness:
  "length (gs_current_bin gs0) = 2 \<and> gs_reads_dropped gs0 = 0
   \<and> add_coverage (pos aln0) (reference_end aln0) [0, 0, 0, 0, 0, 2, 1, 0, 0, 0, 0]
       = Some (3, [0, 0, 0, 0, 0, 3, 1, 0, 0, 0, 0])
   \<and> (\<exists>s'. add_to_bin_buffer gs0 aln0 7 = Some s' \<and> gs_current_bin s' = []
            \<and> gs_staged_reads s' = gs_staged_reads gs0
            \<and> gs_reads_dropped s' = gs_reads_dropped gs0 + 1)"
proof -
  have cov: "add_coverage (pos aln0) (reference_end aln0) [0, 0, 0, 0, 0, 2, 1, 0, 0, 0, 0]
       = Some (3, [0, 0, 0, 0, 0, 3, 1, 0, 0, 0, 0])"
    by (simp add: aln0_def add_coverage_def c_int_cast_def view_index_def Let_def)
  have "\<exists>s'. add_to_bin_buffer gs0 aln0 7 = Some s' \<and> gs_current_bin s' = []
            \<and> gs_staged_reads s' = gs_staged_reads gs0
            \<and> gs_reads_dropped s' = gs_reads_dropped gs0 + 1"
  proof (rule over_coverage_drops_exactly_one [where k = 0, OF _ _ _ _ _ cov])
    show "flag aln0 AND 1540 = 0" by (simp add: aln0_def)
    show "cigartuples aln0 \<noteq> None" by (simp add: aln0_def)
    show "seq aln0 \<noteq> None" by (simp add: aln0_def)
    show "gs_current_cov_array (select_cov_array (ensure_depth gs0 (rname aln0)) (rname aln0))
          = Some 0"
      by (simp add: gs0_def aln0_def select_cov_array_def ensure_depth_def)
    show "gs_depth_d (select_cov_array (ensure_depth gs0 (rname aln0)) (rname aln0)) 0
          = Some [0, 0, 0, 0, 0, 2, 1, 0, 0, 0, 0]"
      by (simp add: gs0_def aln0_def select_cov_array_def ensure_depth_def)
    show "c_int_cast (real_of_int (pos aln0) / 100) = gs_current_pos gs0"
      by (simp add: gs0_def aln0_def c_int_cast_def)
    show "real_of_int (gs_max_cov gs0) \<le> 3" by (simp add: gs0_def)
    show "case gs_overlap_regions gs0 of None \<Rightarrow> True
          | Some isect \<Rightarrow> \<not> isect (rname aln0) (pos aln0) (pos aln0 + 1)"
      by (simp add: gs0_def)
  qed
  then show ?thesis using cov by (simp add: gs0_def)
qed

text \<open>What one call can do to the current bin and to the staged bins.\<close>

lemma add_to_bin_buffer_bins:
  assumes "passes_filter a" and "add_to_bin_buffer self a tell = Some self'"
  shows "(gs_current_bin self' = [] \<or> gs_current_bin self' = gs_current_bin self @ [(a, tell)]
            \<or> gs_current_bin self' = [(a, tell)])
       \<and> (gs_staged_reads self' = gs_staged_reads self
            \<or> gs_staged_reads self' = gs_staged_reads self @ [gs_current_bin self])"
proof -
  define s1 where "s1 = select_cov_array (ensure_depth self (rname a)) (rname a)"
  have b1: "gs_current_bin s1 = gs_current_bin self" "gs_staged_reads s1 = gs_staged_reads self"
    by (simp_all add: s1_def select_cov_array_fields ensure_depth_fields)
  obtain k arr cov arr' where
    k: "gs_current_cov_array s1 = Some k" and arr: "gs_depth_d s1 k = Some arr"
    and cov: "add_coverage (pos a) (reference_end a) arr = Some (cov, arr')"
    using assms unfolding add_to_bin_buffer_def Let_def s1_def [symmetric] passes_filter_def
    by (auto split: option.splits)
  define s2 where "s2 = s1\<lparr>gs_depth_d := (gs_depth_d s1)(k \<mapsto> arr')\<rparr>"
  have b2: "gs_current_bin s2 = gs_current_bin self" "gs_staged_reads s2 = gs_staged_reads self"
    using b1 by (simp_all add: s2_def)
  have "self' = drop_current_bin s2
        \<or> self' = s2\<lparr>gs_current_bin := gs_current_bin s2 @ [(a, tell)]\<rparr>
        \<or> (\<exists>c p. self' = s2\<lparr>gs_staged_reads := gs_staged_reads s2 @ [gs_current_bin s2],
                            gs_current_chrom := c, gs_current_pos := p,
                            gs_current_bin := [(a, tell)]\<rparr>)
        \<or> (\<exists>c p. self' = s2\<lparr>gs_current_chrom := c, gs_current_pos := p,
                            gs_current_bin := [(a, tell)]\<rparr>)"
    using assms k arr cov
    unfolding add_to_bin_buffer_def Let_def s1_def [symmetric] passes_filter_def
    by (simp add: s2_def [symmetric] split: if_splits) blast+
  then show ?thesis using b2 by (auto simp: drop_current_bin_effect)
qed

text \<open>
  Hence the filter is an invariant of what is staged: when every record of the current
  bin and of the staged bins passed the filter before a call, the same holds after it.
  Starting from empty bins, no filtered record is ever handed on to the graph builder.
\<close>

lemma add_to_bin_buffer_staged_pass:
  assumes "staged_all_pass self" and "add_to_bin_buffer self a tell = Some self'"
  shows "staged_all_pass self'"
proof (cases "passes_filter a")
  case False
  then have "add_to_bin_buffer self a tell = Some self"
    by (auto simp: add_to_bin_buffer_def passes_filter_def)
  then show ?thesis using assms by simp
next
  case True
  show ?thesis
  proof -
    note sh = add_to_bin_buffer_bins [OF True assms(2)]
    have old: "\<forall>p \<in> set (gs_current_bin self). passes_filter (fst p)"
      "\<forall>b \<in> set (gs_staged_reads self). \<forall>p \<in> set b. passes_filter (fst p)"
      using assms(1) by (simp_all add: staged_all_pass_def)
    have c: "\<forall>p \<in> set (gs_current_bin self'). passes_filter (fst p)"
      using sh old(1) True by fastforce
    have "set (gs_staged_reads self') \<subseteq> insert (gs_current_bin self) (set (gs_staged_reads self))"
      using sh by auto
    then have st: "\<forall>b \<in> set (gs_staged_reads self'). \<forall>p \<in> set b. passes_filter (fst p)"
      using old by blast
    show ?thesis using c st by (simp add: staged_all_pass_def)
  qed
qed

section \<open>Properties of add\_coverage\<close>

lemma fill_between_length [simp]: "length (fill_between lo hi d) = length d"
proof -
  have "length (fold (\<lambda>i d. d[i := d ! i + 1]) xs d) = length d" for xs :: "nat list"
    by (induction xs arbitrary: d) auto
  then show ?thesis by (simp add: fill_between_def)
qed








text \<open>
  A read inside one bin adds the distance from its start to the end of the bin, not
  its own length: positions 110 to 120 add 0.9 to bin 1.
\<close>

lemma add_coverage_single_bin_example:
  "add_coverage 110 120 [0, 0, 0, 0, 0] = Some (9 / 10, [0, 9 / 10, 0, 0, 0])
   \<and> bin_overlap 110 120 1 = 1 / 10"
  by (simp add: add_coverage_def c_int_cast_def view_index_def Let_def bin_overlap_def)




section \<open>Properties of proc\_component\<close>

lemma proc_component_step_support:
  assumes "proc_component_step ntn rb procs sites st v = Some st'"
  shows "pc_support_estimate st' = pc_support_estimate st + node_support ntn sites v"
  using assms
  by (auto simp: proc_component_step_def node_support_def NodeToName_getitem_def Let_def
      split: option.splits if_splits)

lemma proc_component_loop_support:
  assumes "proc_component_loop ntn rb procs sites st component = Some st'"
  shows "pc_support_estimate st' =
         pc_support_estimate st + (\<Sum>v\<leftarrow>component. node_support ntn sites v)"
  using assms
proof (induction component arbitrary: st)
  case Nil
  then show ?case by simp
next
  case (Cons v component)
  then obtain st1 where s: "proc_component_step ntn rb procs sites st v = Some st1"
    and l: "proc_component_loop ntn rb procs sites st1 component = Some st'"
    by (auto split: option.splits)
  show ?case using Cons.IH [OF l] proc_component_step_support [OF s] by simp
qed

lemma proc_component_loop_total:
  assumes "\<forall>v \<in> set component. 0 \<le> v \<and> v < int (length ntn)"
  shows "\<exists>st'. proc_component_loop ntn rb procs sites st component = Some st'"
  using assms
proof (induction component arbitrary: st)
  case Nil
  then show ?case by simp
next
  case (Cons v component)
  then have "\<exists>st1. proc_component_step ntn rb procs sites st v = Some st1"
    by (auto simp: proc_component_step_def NodeToName_getitem_def Let_def split: option.splits)
  then show ?case using Cons by auto
qed

text \<open>
  C1, amended.  When every node of the component is a row of the node table, the loop
  returns, and \<open>support_estimate\<close> is the sum over the component of 0 for a node of
  the sites index, 2 for a node whose cigar index is not -1 and 1 for a node whose cigar
  index is -1.  Hence, without sites, a component of whole-read nodes only has a
  support estimate equal to its size.
\<close>

theorem proc_component_support_estimate:
  assumes "\<forall>v \<in> set component. 0 \<le> v \<and> v < int (length node_to_name)"
  shows "\<exists>st. proc_component_loop node_to_name read_buffer procs sites_index
               \<lparr>pc_info = None, pc_min_support = min_support, pc_reads = [], pc_n2n = [],
                pc_support_estimate = 0\<rparr> component = Some st
          \<and> pc_support_estimate st
              = (\<Sum>v\<leftarrow>component. node_support node_to_name sites_index v)
          \<and> (sites_index = None \<and> (\<forall>v \<in> set component. nn_cigar_index (node_to_name ! nat v) = -1)
               \<longrightarrow> pc_support_estimate st = int (length component))"
proof -
  obtain st where st: "proc_component_loop node_to_name read_buffer procs sites_index
               \<lparr>pc_info = None, pc_min_support = min_support, pc_reads = [], pc_n2n = [],
                pc_support_estimate = 0\<rparr> component = Some st"
    using proc_component_loop_total [OF assms] by blast
  have sum: "pc_support_estimate st = (\<Sum>v\<leftarrow>component. node_support node_to_name sites_index v)"
    using proc_component_loop_support [OF st] by simp
  have "(\<Sum>v\<leftarrow>component. node_support node_to_name sites_index v) = int (length component)"
    if "sites_index = None" "\<forall>v \<in> set component. nn_cigar_index (node_to_name ! nat v) = -1"
    using that by (induction component) (auto simp: node_support_def)
  then show ?thesis using st sum by auto
qed

theorem proc_component_support_estimate_witness:
  "(\<exists>st. proc_component_loop [whole_read, whole_read\<lparr>nn_cigar_index := 3\<rparr>] Map.empty 1
            (None :: (int \<rightharpoonup> unit) option)
            \<lparr>pc_info = None, pc_min_support = 1, pc_reads = [], pc_n2n = [],
             pc_support_estimate = 0\<rparr> [0, 1] = Some st
        \<and> pc_support_estimate st = 3)
   \<and> (\<exists>st. proc_component_loop [whole_read, whole_read] Map.empty 1
            (None :: (int \<rightharpoonup> unit) option)
            \<lparr>pc_info = None, pc_min_support = 1, pc_reads = [], pc_n2n = [],
             pc_support_estimate = 0\<rparr> [0, 1] = Some st
        \<and> pc_support_estimate st = 2)"
  using proc_component_support_estimate
          [of "[0, 1]" "[whole_read, whole_read\<lparr>nn_cigar_index := 3\<rparr>]" Map.empty 1
              "None :: (int \<rightharpoonup> unit) option" 1]
        proc_component_support_estimate
          [of "[0, 1]" "[whole_read, whole_read]" Map.empty 1
              "None :: (int \<rightharpoonup> unit) option" 1]
  by (simp add: node_support_def whole_read_def)

text \<open>
  C1 as stated fails: a component of one whole-read node (cigar index -1) has support
  estimate 1, not twice its size.
\<close>

theorem proc_component_whole_read_counterexample:
  "proc_component_loop [whole_read] Map.empty 1 (None :: (int \<rightharpoonup> unit) option)
     \<lparr>pc_info = None, pc_min_support = 1, pc_reads = [], pc_n2n = [],
      pc_support_estimate = 0\<rparr> [0]
    = Some \<lparr>pc_info = None, pc_min_support = 1, pc_reads = [],
            pc_n2n = [(0, whole_read)], pc_support_estimate = 1\<rparr>
   \<and> nn_cigar_index whole_read = -1 \<and> (1::int) \<noteq> 2 * int (length [0::int])"
  by (simp add: proc_component_step_def NodeToName_getitem_def dict_set_def whole_read_def)

section \<open>Properties of get\_insert\_params\<close>

lemma fold_sq: "fold (\<lambda>v acc. acc + (v - m)\<^sup>2) L a = a + (\<Sum>v\<leftarrow>L. (v - m)\<^sup>2)" for m a :: real
  by (induction L arbitrary: a) (auto simp: algebra_simps)

lemma median_Some_iff: "median L = None \<longleftrightarrow> L = []"
  by (auto simp: median_def Let_def)

lemma median_sorted_is_median:
  assumes "sorted L" and "median L = Some m"
  shows "is_median m L"
proof -
  let ?n = "length L"
  have ne: "L \<noteq> []" using assms(2) by (auto simp: median_def)
  have cnt: "length (filter P L) = card {i. i < ?n \<and> P (L ! i)}" for P
    by (rule length_filter_conv_card)
  show ?thesis
  proof (cases "?n mod 2 = 1")
    case True
    then have m: "m = L ! (?n div 2)" using assms(2) by (simp add: median_def)
    have k: "?n div 2 < ?n" using ne by simp
    have "{i. i < ?n \<and> L ! i < m} \<subseteq> {..< ?n div 2}"
    proof
      fix i assume "i \<in> {i. i < ?n \<and> L ! i < m}"
      then have i: "i < ?n" "L ! i < m" by auto
      have "\<not> ?n div 2 \<le> i" using sorted_nth_mono [OF assms(1), of "?n div 2" i] i m by auto
      then show "i \<in> {..< ?n div 2}" by simp
    qed
    then have "card {i. i < ?n \<and> L ! i < m} \<le> card {..< ?n div 2}"
      by (intro card_mono) auto
    then have a: "2 * length (filter (\<lambda>x. x < m) L) \<le> ?n" by (simp add: cnt)
    have "{i. i < ?n \<and> L ! i > m} \<subseteq> {?n div 2 + 1 ..< ?n}"
    proof
      fix i assume "i \<in> {i. i < ?n \<and> L ! i > m}"
      then have i: "i < ?n" "L ! i > m" by auto
      have "\<not> i \<le> ?n div 2" using sorted_nth_mono [OF assms(1), of i "?n div 2"] i m k by auto
      then show "i \<in> {?n div 2 + 1 ..< ?n}" using i by simp
    qed
    then have "card {i. i < ?n \<and> L ! i > m} \<le> card {?n div 2 + 1 ..< ?n}"
      by (intro card_mono) auto
    then have b: "2 * length (filter (\<lambda>x. x > m) L) \<le> ?n" by (simp add: cnt)
    show ?thesis using a b by (simp add: is_median_def)
  next
    case False
    then have ev: "?n mod 2 = 0" by simp
    have "?n \<noteq> 0" "?n \<noteq> 1" using ne ev by auto
    then have n2: "2 \<le> ?n" by linarith
    define k where "k = ?n div 2"
    have k: "1 \<le> k" "k < ?n" "2 * k = ?n" using n2 ev by (auto simp: k_def)
    have m: "m = (L ! (k - 1) + L ! k) / 2"
      using assms(2) False ne k by (simp add: median_def Let_def k_def)
    have le: "L ! (k - 1) \<le> L ! k" using sorted_nth_mono [OF assms(1), of "k - 1" k] k by simp
    have mlo: "L ! (k - 1) \<le> m" and mhi: "m \<le> L ! k" using le m by simp_all
    have "{i. i < ?n \<and> L ! i < m} \<subseteq> {..< k}"
    proof
      fix i assume "i \<in> {i. i < ?n \<and> L ! i < m}"
      then have i: "i < ?n" "L ! i < m" by auto
      have "\<not> k \<le> i" using sorted_nth_mono [OF assms(1), of k i] i mhi by auto
      then show "i \<in> {..< k}" by simp
    qed
    then have "card {i. i < ?n \<and> L ! i < m} \<le> card {..< k}"
      by (intro card_mono) auto
    then have a: "2 * length (filter (\<lambda>x. x < m) L) \<le> ?n" using k by (simp add: cnt)
    have "{i. i < ?n \<and> L ! i > m} \<subseteq> {k ..< ?n}"
    proof
      fix i assume "i \<in> {i. i < ?n \<and> L ! i > m}"
      then have i: "i < ?n" "L ! i > m" by auto
      have "k - 1 < ?n" using k by linarith
      then have "i \<le> k - 1 \<Longrightarrow> L ! i \<le> L ! (k - 1)"
        using sorted_nth_mono [OF assms(1), of i "k - 1"] by simp
      then have "\<not> i \<le> k - 1" using i mlo by fastforce
      then show "i \<in> {k ..< ?n}" using i k by simp
    qed
    then have "card {i. i < ?n \<and> L ! i > m} \<le> card {k ..< ?n}"
      by (intro card_mono) auto
    then have b: "2 * length (filter (\<lambda>x. x > m) L) \<le> ?n" using k by (simp add: cnt)
    show ?thesis using a b by (simp add: is_median_def)
  qed
qed


lemma median_pos:
  assumes "median xs = Some u" and "\<forall>x \<in> set xs. 0 < x"
  shows "0 < u"
proof -
  have ne: "xs \<noteq> []" using assms(1) by (auto simp: median_def)
  have pos: "0 < xs ! i" if "i < length xs" for i using assms(2) that by simp
  show ?thesis
  proof (cases "length xs mod 2 = 1")
    case True
    then show ?thesis using assms(1) pos [of "length xs div 2"] ne by (simp add: median_def)
  next
    case False
    have "length xs \<noteq> 0" "length xs \<noteq> 1" using ne False by auto
    then have n2: "2 \<le> length xs" by linarith
    then have a: "length xs div 2 - 1 < length xs" and b: "length xs div 2 - 1 + 1 < length xs"
      by linarith+
    show ?thesis
      using assms(1) False ne pos [OF a] pos [OF b] by (auto simp: median_def Let_def)
  qed
qed

lemma median_ge_first:
  assumes "sorted xs" and "median xs = Some u"
  shows "xs ! 0 \<le> u"
proof -
  have ne: "xs \<noteq> []" using assms(2) by (auto simp: median_def)
  have ge: "xs ! 0 \<le> xs ! i" if "i < length xs" for i
    using sorted_nth_mono [OF assms(1), of 0 i] that by simp
  show ?thesis
  proof (cases "length xs mod 2 = 1")
    case True
    then show ?thesis using assms(2) ge [of "length xs div 2"] ne by (simp add: median_def)
  next
    case False
    have "length xs \<noteq> 0" "length xs \<noteq> 1" using ne False by auto
    then have n2: "2 \<le> length xs" by linarith
    then have a: "length xs div 2 - 1 < length xs" and b: "length xs div 2 - 1 + 1 < length xs"
      by linarith+
    show ?thesis
      using assms(2) False ne ge [OF a] ge [OF b] by (auto simp: median_def Let_def)
  qed
qed

lemma sorted_shift_filter:
  "sorted xs \<Longrightarrow> sorted (map (\<lambda>x. x - c) (filter P xs))" for c :: real
  by (induction xs) auto

text \<open>
  C4, amended.  On a list with a value above its median, \<open>get_insert_params\<close> computes
  the median and the upper MAD (the median of \<open>x - med\<close> over \<open>x > med\<close>, which is
  positive), keeps the values below \<open>med + 8 \<cdot> upper_mad\<close> (at least one), and returns
  the median of the kept values together with the square root of their mean squared
  deviation from that median.
\<close>

theorem get_insert_params_median_std:
  assumes "median (sort L) = Some med" and "\<exists>x \<in> set L. med < x"
  shows "\<exists>umad m sd.
           is_median med (sort L)
         \<and> median (map (\<lambda>x. x - med) (filter (\<lambda>x. med < x) (sort L))) = Some umad
         \<and> is_median umad (map (\<lambda>x. x - med) (filter (\<lambda>x. med < x) (sort L)))
         \<and> 0 < umad
         \<and> get_insert_params L 8 = Some (m, sd)
         \<and> filter (\<lambda>v. v < med + 8 * umad) (sort L) \<noteq> []
         \<and> median (filter (\<lambda>v. v < med + 8 * umad) (sort L)) = Some m
         \<and> is_median m (filter (\<lambda>v. v < med + 8 * umad) (sort L))
         \<and> 0 \<le> sd
         \<and> sd\<^sup>2 = (\<Sum>v\<leftarrow>filter (\<lambda>v. v < med + 8 * umad) (sort L). (v - m)\<^sup>2)
                  / real (length (filter (\<lambda>v. v < med + 8 * umad) (sort L)))"
proof -
  let ?xs = "sort L"
  let ?up = "map (\<lambda>x. x - med) (filter (\<lambda>x. med < x) ?xs)"
  have "?up \<noteq> []" using assms(2) by (auto simp: filter_empty_conv)
  then obtain umad where umad: "median ?up = Some umad"
    using median_Some_iff [of ?up] by (cases "median ?up") auto
  have up_sorted: "sorted ?up" by (rule sorted_shift_filter) simp
  have upos: "0 < umad" by (rule median_pos [OF umad]) auto
  let ?kept = "filter (\<lambda>v. v < med + 8 * umad) ?xs"
  have ne: "?xs \<noteq> []" using assms(1) median_Some_iff [of ?xs] by auto
  have "?xs ! 0 \<le> med" by (rule median_ge_first [OF _ assms(1)]) simp
  then have "?xs ! 0 < med + 8 * umad" using upos by simp
  moreover have "?xs ! 0 \<in> set ?xs" using ne by (metis length_greater_0_conv nth_mem)
  ultimately have kne: "?kept \<noteq> []" by (auto simp: filter_empty_conv)
  then obtain m where m: "median ?kept = Some m"
    using median_Some_iff [of ?kept] by (cases "median ?kept") auto
  have ksorted: "sorted ?kept" by (simp add: sorted_wrt_filter)
  then have sk: "sort ?kept = ?kept" by (simp add: sort_key_id_if_sorted)
  define sd where "sd = sqrt ((\<Sum>v\<leftarrow>?kept. (v - m)\<^sup>2) / real (length ?kept))"
  have nn: "0 \<le> (\<Sum>v\<leftarrow>?kept. (v - m)\<^sup>2) / real (length ?kept)"
    by (intro divide_nonneg_nonneg sum_list_nonneg) auto
  have res: "get_insert_params L 8 = Some (m, sd)"
    using assms(1) umad m sk
    by (simp add: get_insert_params_def unscaled_upper_mad_def mean_std_def np_median_def
        Let_def fold_sq sd_def)
  have "0 \<le> sd" using nn by (simp add: sd_def)
  moreover have "sd\<^sup>2 = (\<Sum>v\<leftarrow>?kept. (v - m)\<^sup>2) / real (length ?kept)"
    using nn by (simp add: sd_def)
  moreover have "is_median med ?xs" by (rule median_sorted_is_median [OF _ assms(1)]) simp
  moreover have "is_median umad ?up" by (rule median_sorted_is_median [OF up_sorted umad])
  moreover have "is_median m ?kept" by (rule median_sorted_is_median [OF ksorted m])
  ultimately show ?thesis using umad upos res kne m by blast
qed

text \<open>
  When no value lies above the median (all values equal, for one), the upper MAD is the
  median of an empty list and the call raises.
\<close>

lemma get_insert_params_raises:
  assumes "median (sort L) = Some med" and "\<forall>x \<in> set L. x \<le> med"
  shows "get_insert_params L 8 = None"
proof -
  have "filter (\<lambda>x. med < x) (sort L) = []" using assms(2) by (auto simp: filter_empty_conv)
  then show ?thesis
    using assms(1) by (simp add: get_insert_params_def unscaled_upper_mad_def median_def)
qed

theorem get_insert_params_median_std_witness:
  "median (sort [1, 9, 2]) = Some 2
   \<and> (\<exists>umad m sd.
         median (map (\<lambda>x. x - 2) (filter (\<lambda>x. 2 < x) (sort [1, 9, 2]))) = Some umad
       \<and> umad = 7
       \<and> get_insert_params [1, 9, 2] 8 = Some (m, sd) \<and> m = 2 \<and> sd\<^sup>2 = 50 / 3)"
  using get_insert_params_median_std [of "[1, 9, 2]" 2]
  by (auto simp: median_def Let_def power2_eq_square)

text \<open>
  C4 as stated fails: on the inserts 1, 9, 2 nothing is dropped (the cutoff is 58), and
  the first component returned is the median 2, while the arithmetic mean of the kept
  values is 4.
\<close>

theorem get_insert_params_mean_counterexample:
  "get_insert_params [1, 9, 2] 8 = Some (2, sqrt (50 / 3))
   \<and> filter (\<lambda>v. v < 2 + 8 * 7) (sort [1, 9, 2 :: real]) = [1, 2, 9]
   \<and> spec_mean [1, 2, 9] = 4"
  by (simp add: get_insert_params_def unscaled_upper_mad_def median_def mean_std_def
      np_median_def spec_mean_def Let_def power2_eq_square)

section \<open>Properties of PairedEndScoper\<close>

lemma set_mm_insert [simp]: "set (mm_insert pp m) = insert pp (set m)"
  by (induction m) auto

lemma sorted_mm_insert:
  "sorted (map fst m) \<Longrightarrow> sorted (map fst (mm_insert pp m))"
  by (induction m) auto

lemma forward_examine_excludes:
  "walk_excludes (q_node_name q) st \<Longrightarrow> walk_excludes (q_node_name q) (forward_examine msu self q vitem st)"
  by (simp add: walk_excludes_def forward_examine_def Let_def)

lemma backward_examine_excludes:
  "walk_excludes (q_node_name q) st \<Longrightarrow> walk_excludes (q_node_name q) (backward_examine msu self q vitem st)"
  by (simp add: walk_excludes_def backward_examine_def Let_def)

lemma forward_walk_excludes:
  "walk_excludes (q_node_name q) st \<Longrightarrow> walk_excludes (q_node_name q) (forward_walk msu self q xs steps st)"
proof (induction msu self q xs steps st rule: forward_walk.induct)
  case (1 msu self q steps st)
  then show ?case by simp
next
  case (2 msu self q vitem rest steps st)
  show ?case
  proof (cases "steps < 6")
    case False
    then show ?thesis using "2.prems" by simp
  next
    case True
    show ?thesis
    proof (cases "type_gate q vitem")
      case True
      then show ?thesis using "2.IH"(1) "2.prems" \<open>steps < 6\<close> by simp
    next
      case False
      have e: "walk_excludes (q_node_name q) (forward_examine msu self q vitem st)"
        using "2.prems" by (rule forward_examine_excludes)
      show ?thesis
        using "2.IH"(2) [OF \<open>steps < 6\<close> False refl] e \<open>steps < 6\<close> False
        by (simp add: Let_def)
    qed
  qed
qed

lemma backward_walk_excludes:
  "walk_excludes (q_node_name q) st \<Longrightarrow> walk_excludes (q_node_name q) (backward_walk msu self q xs steps st)"
proof (induction msu self q xs steps st rule: backward_walk.induct)
  case (1 msu self q steps st)
  then show ?case by simp
next
  case (2 msu self q vitem rest steps st)
  show ?case
  proof (cases "steps < 6")
    case False
    then show ?thesis using "2.prems" by simp
  next
    case True
    show ?thesis
    proof (cases "type_gate q vitem")
      case True
      then show ?thesis using "2.IH"(1) "2.prems" \<open>steps < 6\<close> by simp
    next
      case False
      have e: "walk_excludes (q_node_name q) (backward_examine msu self q vitem st)"
        using "2.prems" by (rule backward_examine_excludes)
      show ?thesis
        using "2.IH"(2) [OF \<open>steps < 6\<close> False refl] e \<open>steps < 6\<close> False
        by (simp add: Let_def)
    qed
  qed
qed

text \<open>
  Both loops add a neighbour only under \<open>node_name2 != node_name\<close>, so neither result
  vector ever holds the node the call is for.
\<close>

lemma find_other_nodes_result_excludes:
  assumes "find_other_nodes msu self node_name current_chrom current_pos chrom2 pos2 read_enum
             length_from_cigar trust_ins_len = Some (self', found)"
  shows "node_name \<notin> set found"
proof -
  define q where "q = \<lparr>q_node_name = node_name, q_current_chrom = current_chrom,
                    q_current_pos = current_pos, q_chrom2 = chrom2, q_pos2 = pos2,
                    q_read_enum = read_enum, q_length_from_cigar = length_from_cigar,
                    q_trust_ins_len = trust_ins_len\<rparr>"
  have qn: "q_node_name q = node_name" by (simp add: q_def)
  define st0 where "st0 = \<lparr>ws_sep = 0, ws_found_exact = [], ws_found2 = []\<rparr>"
  have e0: "walk_excludes (q_node_name q) st0" by (simp add: walk_excludes_def st0_def)
  have fw: "walk_excludes node_name (forward_walk msu s q xs 0 st0)" for s xs
    using forward_walk_excludes [OF e0] qn by simp
  have bw: "walk_excludes node_name st \<Longrightarrow> walk_excludes node_name (backward_walk msu s q xs 0 st)"
    for s xs st
    using backward_walk_excludes [of q st] qn by simp
  have e0': "walk_excludes node_name st0" using e0 qn by simp
  show ?thesis
    using assms fw bw e0'
    unfolding find_other_nodes_def q_def [symmetric] st0_def [symmetric] Let_def
    by (auto simp: walk_excludes_def split: option.splits if_splits)
qed


subsection \<open>The exact bucket\<close>

text \<open>
  In the forward loop a neighbour that passes the gates with \<open>|v.p1 - p2| < 35\<close> enters
  the exact bucket exactly when a CIGAR length is absent or the span distance is below
  0.8.
\<close>

lemma forward_examine_exact_iff:
  assumes "lv_node_name (snd vitem) \<noteq> q_node_name q"
    and "q_current_chrom q \<noteq> q_chrom2 q \<or>
         is_reciprocal_overlapping msu (q_current_pos q) (q_pos2 q) (fst vitem)
           (lv_pos2 (snd vitem))"
    and "\<bar>fst vitem - q_pos2 q\<bar> < pe_max_dist self"
    and "\<bar>lv_pos2 (snd vitem) - q_current_pos q\<bar> < pe_max_dist self"
    and "\<bar>fst vitem - q_pos2 q\<bar> < 35"
  shows "ws_found_exact (forward_examine msu self q vitem st) =
           (if spec_exact_accept (q_length_from_cigar q) (lv_length_from_cigar (snd vitem))
            then ws_found_exact st @ [lv_node_name (snd vitem)] else ws_found_exact st)"
  using assms by (simp add: forward_examine_def Let_def spec_exact_accept_def)

text \<open>
  C6.  In the backward loop the same neighbour enters the exact bucket whatever the
  CIGAR lengths are: the push that follows the test of the lengths is unconditional.
\<close>

theorem backward_examine_exact_ignores_span:
  assumes "lv_node_name (snd vitem) \<noteq> q_node_name q"
    and "q_current_chrom q \<noteq> q_chrom2 q \<or>
         is_reciprocal_overlapping msu (q_current_pos q) (q_pos2 q) (fst vitem)
           (lv_pos2 (snd vitem))"
    and "\<bar>fst vitem - q_pos2 q\<bar> < pe_max_dist self"
    and "lv_chrom2 (snd vitem) = q_chrom2 q"
    and "\<bar>lv_pos2 (snd vitem) - q_current_pos q\<bar> < pe_max_dist self"
    and "\<bar>fst vitem - q_pos2 q\<bar> < 35"
  shows "lv_node_name (snd vitem) \<in> set (ws_found_exact (backward_examine msu self q vitem st))"
  using assms by (simp add: backward_examine_def Let_def)

text \<open>
  The failing input: the scoper holds node 0, an insertion of length 100 at 0:1000.  A
  second insertion of length 10 (span distance 0.9) is returned node 0 from the exact
  bucket when it lies after it, at 1005, and through the backward loop; it is returned
  nothing when it lies before it, at 995, and through the forward loop.
\<close>

theorem backward_examine_exact_ignores_span_witness:
  "\<forall>spd. \<not> spec_exact_accept 10 100
     \<and> 0 \<in> set (ws_found_exact
           (backward_examine
              \<lparr>is_reciprocal_overlapping = spec_reciprocal_overlap, span_position_distance = spd\<rparr>
              pe_ins
              \<lparr>q_node_name = 1, q_current_chrom = 0, q_current_pos = 1005, q_chrom2 = 0,
               q_pos2 = 1005, q_read_enum = INSERTION, q_length_from_cigar = 10,
               q_trust_ins_len = True\<rparr>
              (1000, make_local_val 0 1000 0 INSERTION 100)
              \<lparr>ws_sep = 0, ws_found_exact = [], ws_found2 = []\<rparr>))
     \<and> find_other_nodes
           \<lparr>is_reciprocal_overlapping = spec_reciprocal_overlap, span_position_distance = spd\<rparr>
           pe_ins 1 0 1005 0 1005 INSERTION 10 True = Some (pe_ins, [0])
     \<and> find_other_nodes
           \<lparr>is_reciprocal_overlapping = spec_reciprocal_overlap, span_position_distance = spd\<rparr>
           pe_ins 1 0 995 0 995 INSERTION 10 True = Some (pe_ins, [])"
proof (intro allI conjI)
  fix spd
  show "\<not> spec_exact_accept 10 100"
    by (simp add: spec_exact_accept_def span_distance_def)
  show "0 \<in> set (ws_found_exact
           (backward_examine
              \<lparr>is_reciprocal_overlapping = spec_reciprocal_overlap, span_position_distance = spd\<rparr>
              pe_ins
              \<lparr>q_node_name = 1, q_current_chrom = 0, q_current_pos = 1005, q_chrom2 = 0,
               q_pos2 = 1005, q_read_enum = INSERTION, q_length_from_cigar = 10,
               q_trust_ins_len = True\<rparr>
              (1000, make_local_val 0 1000 0 INSERTION 100)
              \<lparr>ws_sep = 0, ws_found_exact = [], ws_found2 = []\<rparr>))"
    using backward_examine_exact_ignores_span
            [of "(1000, make_local_val 0 1000 0 INSERTION 100)"
                "\<lparr>q_node_name = 1, q_current_chrom = 0, q_current_pos = 1005, q_chrom2 = 0,
                  q_pos2 = 1005, q_read_enum = INSERTION, q_length_from_cigar = 10,
                  q_trust_ins_len = True\<rparr>"
                "\<lparr>is_reciprocal_overlapping = spec_reciprocal_overlap,
                  span_position_distance = spd\<rparr>"
                pe_ins "\<lparr>ws_sep = 0, ws_found_exact = [], ws_found2 = []\<rparr>"]
    by (simp add: make_local_val_def spec_reciprocal_overlap_def pe_ins_def)
  show "find_other_nodes
           \<lparr>is_reciprocal_overlapping = spec_reciprocal_overlap, span_position_distance = spd\<rparr>
           pe_ins 1 0 1005 0 1005 INSERTION 10 True = Some (pe_ins, [0])"
    by (simp add: find_other_nodes_def pe_ins_def forward_scope_index_def Let_def
        from_lower_bound_def before_lower_bound_def make_local_val_def type_gate_def
        backward_examine_def spec_reciprocal_overlap_def span_distance_def)
  show "find_other_nodes
           \<lparr>is_reciprocal_overlapping = spec_reciprocal_overlap, span_position_distance = spd\<rparr>
           pe_ins 1 0 995 0 995 INSERTION 10 True = Some (pe_ins, [])"
    by (simp add: find_other_nodes_def pe_ins_def forward_scope_index_def Let_def
        from_lower_bound_def before_lower_bound_def make_local_val_def type_gate_def
        forward_examine_def spec_reciprocal_overlap_def span_distance_def)
qed

subsection \<open>Chromosome change\<close>

lemma pe_ins_from_add_item:
  "add_item (PairedEndScoper_init 500 500 2 100 (3 / 10) True\<lparr>pe_local_chrom := 0\<rparr>)
     0 0 1000 0 1000 INSERTION 100 = Some pe_ins"
  by (simp add: add_item_def PairedEndScoper_init_def forward_scope_index_def pe_ins_def
      Let_def numeral_2_eq_2)







section \<open>Properties of BFS\_local and get\_partitions\<close>

text \<open>An edge joins its ends both ways, so the strong edges are symmetric.\<close>

lemma joins_sym: "joins e u v = joins e v u"
  by (auto simp: joins_def)

lemma neighbors_iff: "v \<in> set (neighbors G u) \<longleftrightarrow> (\<exists>e \<in> set (g_edges G). joins e u v)"
  by (auto simp: neighbors_def joins_def image_iff)

lemma weight_sym: "weight G u v = weight G v u"
proof -
  have "(\<lambda>e. joins e u v) = (\<lambda>e. joins e v u)" by (rule ext) (rule joins_sym)
  then show ?thesis by (simp add: weight_def)
qed

lemma strong_sym: "(u, v) \<in> strong G \<Longrightarrow> (v, u) \<in> strong G"
  using weight_sym [of G u v] joins_sym by (auto simp: strong_def neighbors_iff)

lemma strong_rtrancl_sym: "(u, v) \<in> (strong G)\<^sup>* \<Longrightarrow> (v, u) \<in> (strong G)\<^sup>*"
proof -
  have "sym (strong G)" by (auto intro: symI strong_sym)
  then have "sym ((strong G)\<^sup>*)" by (rule sym_rtrancl)
  then show "(u, v) \<in> (strong G)\<^sup>* \<Longrightarrow> (v, u) \<in> (strong G)\<^sup>*" by (auto dest: symD)
qed

lemma closed_under_rtrancl:
  assumes "closed_under G S" and "(x, y) \<in> (strong G)\<^sup>*" and "x \<in> S"
  shows "y \<in> S"
  using assms(2,3)
proof (induction rule: rtrancl_induct)
  case base
  then show ?case .
next
  case (step y z)
  then show ?case using assms(1) by (auto simp: closed_under_def)
qed

lemma closed_under_disjoint:
  assumes "closed_under G S" and "u \<notin> S"
  shows "S \<inter> strong_component G u = {}"
proof (rule ccontr)
  assume "S \<inter> strong_component G u \<noteq> {}"
  then obtain z where z: "z \<in> S" "(u, z) \<in> (strong G)\<^sup>*" by (auto simp: strong_component_def)
  then have "(z, u) \<in> (strong G)\<^sup>*" by (auto intro: strong_rtrancl_sym)
  then have "u \<in> S" using closed_under_rtrancl [OF assms(1)] z(1) by blast
  then show False using assms(2) by simp
qed

lemma strong_component_step:
  "x \<in> strong_component G u \<Longrightarrow> (x, y) \<in> strong G \<Longrightarrow> y \<in> strong_component G u"
  by (auto simp: strong_component_def intro: rtrancl_into_rtrancl)

lemma strong_component_self: "u \<in> strong_component G u"
  by (simp add: strong_component_def)

lemma strong_component_closed: "closed_under G (strong_component G u)"
  by (auto simp: closed_under_def intro: strong_component_step)

lemma strong_component_eq:
  assumes "v \<in> strong_component G u"
  shows "strong_component G v = strong_component G u"
proof -
  have uv: "(u, v) \<in> (strong G)\<^sup>*" using assms by (simp add: strong_component_def)
  then have vu: "(v, u) \<in> (strong G)\<^sup>*" by (rule strong_rtrancl_sym)
  show ?thesis using uv vu by (auto simp: strong_component_def intro: rtrancl_trans)
qed

text \<open>
  What one pass over the neighbours of \<open>u\<close> does to \<open>nodes_found\<close> and to the queue.
\<close>

lemma BFS_scan_sets:
  assumes "BFS_scan G visited u vs (nodes_found, queue) = (found', queue')"
  shows "set found' = set nodes_found \<union> {v \<in> set vs. v \<notin> set visited \<and> weight G u v > 1}
                     \<union> (if {v \<in> set vs. v \<notin> set visited \<and> weight G u v > 1} = {} then {}
                         else {u})
       \<and> set queue' \<subseteq> set queue \<union> {v \<in> set vs. v \<notin> set visited \<and> weight G u v > 1}
       \<and> set queue \<subseteq> set queue'
       \<and> set found' \<subseteq> set nodes_found \<union> {u} \<union> set queue'"
  using assms
proof (induction vs arbitrary: nodes_found queue)
  case Nil
  then show ?case by auto
next
  case (Cons v vs)
  define found1 where "found1 = (if u \<notin> set nodes_found then nodes_found @ [u] else nodes_found)"
  define st where "st = (if v \<notin> set visited \<and> weight G u v > 1
      then (if v \<notin> set found1 then (found1 @ [v], queue @ [v]) else (found1, queue))
      else (nodes_found, queue))"
  have step: "BFS_scan G visited u (v # vs) (nodes_found, queue) = BFS_scan G visited u vs st"
    by (simp add: st_def found1_def Let_def)
  have "BFS_scan G visited u vs st = (found', queue')"
    using Cons.prems by (simp only: step)
  then have r: "BFS_scan G visited u vs (fst st, snd st) = (found', queue')"
    by simp
  note ih = Cons.IH [OF r]
  have c1: "set found' = set nodes_found \<union> {x \<in> set (v # vs). x \<notin> set visited \<and> weight G u x > 1}
                     \<union> (if {x \<in> set (v # vs). x \<notin> set visited \<and> weight G u x > 1} = {} then {}
                         else {u})"
    using ih by (auto simp: st_def found1_def split: if_splits)
  have c2: "set queue' \<subseteq> set queue \<union> {x \<in> set (v # vs). x \<notin> set visited \<and> weight G u x > 1}"
    using ih by (auto simp: st_def found1_def split: if_splits)
  have c3: "set queue \<subseteq> set queue'"
    using ih by (auto simp: st_def found1_def split: if_splits)
  have c4: "set found' \<subseteq> set nodes_found \<union> {u} \<union> set queue'"
    using ih by (auto simp: st_def found1_def split: if_splits)
  show ?case using c1 c2 c3 c4 by blast
qed

lemma BFS_inv_step:
  assumes inv: "BFS_inv G source S0 (u # queue) nodes_found visited"
    and nb: "\<exists>v. (source, v) \<in> strong G"
    and scan: "BFS_scan G visited u (neighbors G u) (nodes_found, queue) = (found', queue')"
  shows "BFS_inv G source S0 queue' found' (u # visited)"
proof -
  define C where "C = strong_component G source"
  define N where "N = {v \<in> set (neighbors G u). v \<notin> set visited \<and> weight G u v > 1}"
  have i1: "set (u # queue) \<subseteq> C" and i2: "set nodes_found \<subseteq> C"
    and i3: "set visited \<inter> C \<subseteq> set nodes_found"
    and i4: "set nodes_found \<subseteq> set (u # queue) \<union> set visited"
    and i5: "\<forall>x \<in> set visited \<inter> C. \<forall>y. (x, y) \<in> strong G \<longrightarrow> y \<in> set nodes_found"
    and i6: "set (u # queue) \<subseteq> insert source (set nodes_found)"
    and i7: "source \<in> set nodes_found
            \<or> (nodes_found = [] \<and> u # queue = [source] \<and> set visited \<inter> C = {})"
    and i8: "S0 \<subseteq> set visited" and i9: "set visited \<subseteq> S0 \<union> C"
    using inv unfolding BFS_inv_def Let_def C_def by blast+
  have uC: "u \<in> C" using i1 by simp
  have N_strong: "N = {v. (u, v) \<in> strong G \<and> v \<notin> set visited}"
    by (auto simp: N_def strong_def)
  have NC: "N \<subseteq> C" using uC unfolding N_strong C_def by (auto intro: strong_component_step)
  note s = BFS_scan_sets [OF scan, folded N_def]
  have f': "set found' = set nodes_found \<union> N \<union> (if N = {} then {} else {u})" using s by blast
  have q': "set queue' \<subseteq> set queue \<union> N" using s by blast
  have qq: "set queue \<subseteq> set queue'" using s by blast
  have fq: "set found' \<subseteq> set nodes_found \<union> {u} \<union> set queue'" using s by blast
  have uf: "u \<in> set found'"
  proof (cases "u \<in> set nodes_found")
    case True
    then show ?thesis using f' by simp
  next
    case False
    then have us: "u = source" using i6 by auto
    then have "source \<notin> set nodes_found" using False by simp
    then have vc: "set visited \<inter> C = {}" using i7 by blast
    obtain v where v: "(source, v) \<in> strong G" using nb by blast
    then have "v \<in> C" unfolding C_def
      by (auto intro: strong_component_step strong_component_self)
    then have "v \<notin> set visited" using vc by blast
    then have "v \<in> N" using v us by (simp add: N_strong)
    then show ?thesis using f' by auto
  qed
  have g1: "set queue' \<subseteq> C" using q' i1 NC by auto
  have g2: "set found' \<subseteq> C" using f' i2 NC uC by (auto split: if_splits)
  have g3: "set (u # visited) \<inter> C \<subseteq> set found'" using i3 f' uf by auto
  have g4: "set found' \<subseteq> set queue' \<union> set (u # visited)"
    using fq i4 qq by auto
  have g5: "\<forall>x \<in> set (u # visited) \<inter> C. \<forall>y. (x, y) \<in> strong G \<longrightarrow> y \<in> set found'"
  proof (intro ballI allI impI)
    fix x y assume x: "x \<in> set (u # visited) \<inter> C" and xy: "(x, y) \<in> strong G"
    show "y \<in> set found'"
    proof (cases "x \<in> set visited")
      case True
      then have "y \<in> set nodes_found" using i5 x xy by blast
      then show ?thesis using f' by simp
    next
      case False
      then have xu: "x = u" using x by simp
      have yC: "y \<in> C" using uC xy xu unfolding C_def by (auto intro: strong_component_step)
      show ?thesis
      proof (cases "y \<in> set visited")
        case True
        then show ?thesis using yC i3 f' by auto
      next
        case False
        then have "y \<in> N" using xy xu by (simp add: N_strong)
        then show ?thesis using f' by simp
      qed
    qed
  qed
  have g6: "set queue' \<subseteq> insert source (set found')" using q' i6 f' by auto
  have g7: "source \<in> set found'"
  proof (cases "source \<in> set nodes_found")
    case True
    then show ?thesis using f' by simp
  next
    case False
    then have "u = source" using i7 by auto
    then show ?thesis using uf by simp
  qed
  have g8: "S0 \<subseteq> set (u # visited)" using i8 by auto
  have g9: "set (u # visited) \<subseteq> S0 \<union> C" using i9 uC by auto
  show ?thesis
    unfolding BFS_inv_def Let_def C_def [symmetric]
    using g1 g2 g3 g4 g5 g6 g7 g8 g9 by blast
qed

text \<open>
  When the queue is empty, the nodes found are the strong component of the source, and
  these are the nodes that were added to \<open>visited\<close>.
\<close>

lemma BFS_loop_correct:
  assumes "BFS_inv G source S0 queue nodes_found visited"
    and "\<exists>v. (source, v) \<in> strong G"
    and "BFS_loop G queue nodes_found visited = (rf, rv)"
  shows "set rf = strong_component G source \<and> set rv = S0 \<union> strong_component G source"
  using assms
proof (induction G queue nodes_found visited rule: BFS_loop.induct)
  case (1 G nodes_found visited)
  define C where "C = strong_component G source"
  have r: "rf = nodes_found" "rv = visited" using "1.prems"(3) by simp_all
  have i2: "set nodes_found \<subseteq> C"
    and i4: "set nodes_found \<subseteq> set visited"
    and i5: "\<forall>x \<in> set visited \<inter> C. \<forall>y. (x, y) \<in> strong G \<longrightarrow> y \<in> set nodes_found"
    and i7: "source \<in> set nodes_found"
    and i8: "S0 \<subseteq> set visited" and i9: "set visited \<subseteq> S0 \<union> C"
    and i3: "set visited \<inter> C \<subseteq> set nodes_found"
    using "1.prems"(1) unfolding BFS_inv_def Let_def C_def by auto
  have cl: "closed_under G (set nodes_found)"
    unfolding closed_under_def using i5 i4 i2 by blast
  have "C \<subseteq> set nodes_found"
  proof
    fix y assume "y \<in> C"
    then have "(source, y) \<in> (strong G)\<^sup>*" by (simp add: C_def strong_component_def)
    then show "y \<in> set nodes_found" using closed_under_rtrancl [OF cl _ i7] by blast
  qed
  then have eq: "set nodes_found = C" using i2 by auto
  have "set visited = S0 \<union> C" using i8 i9 i4 eq by auto
  then show ?case using eq r by (simp add: C_def)
next
  case (2 G u queue nodes_found visited)
  obtain found' queue' where
    scan: "BFS_scan G visited u (neighbors G u) (nodes_found, queue) = (found', queue')"
    by (cases "BFS_scan G visited u (neighbors G u) (nodes_found, queue)") auto
  have inv': "BFS_inv G source S0 queue' found' (u # visited)"
    by (rule BFS_inv_step [OF "2.prems"(1) "2.prems"(2) scan])
  have "BFS_loop G queue' found' (u # visited) = (rf, rv)"
    using "2.prems"(3) scan by simp
  then show ?case using "2.IH" [OF scan [symmetric] inv' "2.prems"(2)] by simp
qed

lemma BFS_local_correct:
  assumes "closed_under G (set seen)" and "source \<notin> set seen"
    and "\<exists>v. (source, v) \<in> strong G"
    and "BFS_local G source seen = (rf, rv)"
  shows "set rf = strong_component G source \<and> set rv = set seen \<union> strong_component G source"
proof -
  have d: "set seen \<inter> strong_component G source = {}"
    by (rule closed_under_disjoint [OF assms(1,2)])
  have "BFS_inv G source (set seen) [source] [] seen"
    unfolding BFS_inv_def Let_def using d by (auto simp: strong_component_self)
  then show ?thesis
    using BFS_loop_correct [OF _ assms(3)] assms(4) unfolding BFS_local_def by blast
qed

lemma parts_inv_extend:
  assumes inv: "parts_inv G S parts" and u: "u \<notin> S" and f: "set found = strong_component G u"
  shows "parts_inv G (S \<union> strong_component G u) (parts @ [found])"
proof -
  let ?C = "strong_component G u"
  have cl: "closed_under G S"
    and ps: "\<forall>P \<in> set parts. P \<noteq> [] \<and> set P \<subseteq> S \<and> (\<forall>x \<in> set P. set P = strong_component G x)"
    and dj: "\<forall>i j. i < j \<and> j < length parts \<longrightarrow> set (parts ! i) \<inter> set (parts ! j) = {}"
    using inv unfolding parts_inv_def by blast+
  have d: "S \<inter> ?C = {}" by (rule closed_under_disjoint [OF cl u])
  have c1: "closed_under G (S \<union> ?C)"
    using cl strong_component_closed [of G u] unfolding closed_under_def by blast
  have fne: "found \<noteq> []" using f strong_component_self [of u G] by auto
  have feq: "\<forall>x \<in> set found. set found = strong_component G x"
    using f strong_component_eq by auto
  have c2: "\<forall>P \<in> set (parts @ [found]).
              P \<noteq> [] \<and> set P \<subseteq> S \<union> ?C \<and> (\<forall>x \<in> set P. set P = strong_component G x)"
    using ps fne feq f by auto
  have c3: "\<forall>i j. i < j \<and> j < length (parts @ [found]) \<longrightarrow>
              set ((parts @ [found]) ! i) \<inter> set ((parts @ [found]) ! j) = {}"
  proof (intro allI impI)
    fix i j assume ij: "i < j \<and> j < length (parts @ [found])"
    show "set ((parts @ [found]) ! i) \<inter> set ((parts @ [found]) ! j) = {}"
    proof (cases "j < length parts")
      case True
      then show ?thesis using dj ij by (simp add: nth_append)
    next
      case False
      then have j: "j = length parts" using ij by simp
      have i: "i < length parts" using ij j by simp
      then have "set (parts ! i) \<subseteq> S" using ps by simp
      then show ?thesis using d f i j by (auto simp: nth_append)
    qed
  qed
  show ?thesis unfolding parts_inv_def using c1 c2 c3 by blast
qed

lemma partitions_scan_inv:
  assumes "parts_inv G (set seen) parts"
    and "set vs \<subseteq> set (neighbors G u)"
    and "partitions_scan G u vs (seen, parts) = (seen', parts')"
  shows "parts_inv G (set seen') parts'
       \<and> set seen \<subseteq> set seen'
       \<and> (u \<in> set seen' \<or>
            (set seen' = set seen \<and> (\<forall>v \<in> set vs. v \<in> set seen \<or> \<not> weight G u v > 1)))"
  using assms
proof (induction vs arbitrary: seen parts)
  case Nil
  then show ?case by simp
next
  case (Cons v vs)
  have sub: "set vs \<subseteq> set (neighbors G u)" and vn: "v \<in> set (neighbors G u)"
    using Cons.prems(2) by auto
  show ?case
  proof (cases "v \<in> set seen")
    case True
    then have r: "partitions_scan G u vs (seen, parts) = (seen', parts')"
      using Cons.prems(3) by simp
    show ?thesis using Cons.IH [OF Cons.prems(1) sub r] True by auto
  next
    case False
    show ?thesis
    proof (cases "weight G u v > 1")
      case False
      then have r: "partitions_scan G u vs (seen, parts) = (seen', parts')"
        using Cons.prems(3) \<open>v \<notin> set seen\<close> by simp
      show ?thesis using Cons.IH [OF Cons.prems(1) sub r] False by auto
    next
      case True
      have uv: "(u, v) \<in> strong G" using vn True by (simp add: strong_def)
      have cl: "closed_under G (set seen)" using Cons.prems(1) by (simp add: parts_inv_def)
      have un: "u \<notin> set seen"
      proof
        assume "u \<in> set seen"
        then have "v \<in> set seen" using cl uv unfolding closed_under_def by blast
        then show False using \<open>v \<notin> set seen\<close> by simp
      qed
      obtain found seen1 where b: "BFS_local G u seen = (found, seen1)"
        by (cases "BFS_local G u seen") auto
      have bc: "set found = strong_component G u"
        "set seen1 = set seen \<union> strong_component G u"
        using BFS_local_correct [OF cl un _ b] uv by blast+
      have fne: "length found \<noteq> 0" using bc(1) strong_component_self [of u G] by auto
      have r: "partitions_scan G u vs (seen1, parts @ [found]) = (seen', parts')"
        using Cons.prems(3) \<open>v \<notin> set seen\<close> True b fne by simp
      have inv1: "parts_inv G (set seen1) (parts @ [found])"
        unfolding bc(2) by (rule parts_inv_extend [OF Cons.prems(1) un bc(1)])
      have u1: "u \<in> set seen1" using bc(2) strong_component_self [of u G] by simp
      show ?thesis using Cons.IH [OF inv1 sub r] u1 bc(2) by auto
    qed
  qed
qed

lemma parts_inv_insert:
  assumes inv: "parts_inv G S parts"
    and u: "u \<in> S \<or> (\<forall>v \<in> set (neighbors G u). v \<in> S \<or> \<not> weight G u v > 1)"
  shows "parts_inv G (insert u S) parts"
proof -
  have cl: "closed_under G S" using inv by (simp add: parts_inv_def)
  have "closed_under G (insert u S)"
  proof (cases "u \<in> S")
    case True
    then show ?thesis using cl by (simp add: insert_absorb)
  next
    case False
    then have "\<forall>y. (u, y) \<in> strong G \<longrightarrow> y \<in> S" using u by (auto simp: strong_def)
    then show ?thesis using cl unfolding closed_under_def by blast
  qed
  then show ?thesis using inv unfolding parts_inv_def by blast
qed

lemma partitions_loop_inv:
  assumes "parts_inv G (set seen) parts"
    and "partitions_loop G nodes (seen, parts) = (seen', parts')"
  shows "parts_inv G (set seen') parts'"
  using assms
proof (induction nodes arbitrary: seen parts)
  case Nil
  then show ?case by simp
next
  case (Cons u nodes)
  show ?case
  proof (cases "u \<in> set seen")
    case True
    then show ?thesis using Cons by simp
  next
    case False
    obtain seen1 parts1 where
      sc: "partitions_scan G u (neighbors G u) (seen, parts) = (seen1, parts1)"
      by (cases "partitions_scan G u (neighbors G u) (seen, parts)") auto
    have r: "partitions_loop G nodes (u # seen1, parts1) = (seen', parts')"
      using Cons.prems(2) False sc by simp
    note p = partitions_scan_inv [OF Cons.prems(1) subset_refl sc]
    have "parts_inv G (insert u (set seen1)) parts1"
    proof (rule parts_inv_insert)
      show "parts_inv G (set seen1) parts1" using p by blast
      show "u \<in> set seen1 \<or> (\<forall>v \<in> set (neighbors G u). v \<in> set seen1 \<or> \<not> weight G u v > 1)"
        using p by auto
    qed
    then have "parts_inv G (set (u # seen1)) parts1" by simp
    then show ?thesis using Cons.IH r by blast
  qed
qed

text \<open>
  C7.  Every partition that \<open>get_partitions\<close> returns is non-empty and is, for each
  of its nodes \<open>u\<close>, exactly the set of the nodes joined to \<open>u\<close> by a path of edges of
  weight above 1: all its nodes are connected by such paths alone (no edge of weight 0
  or 1 is needed), and no node so connected is left out.  Two partitions at different
  places of the result are disjoint.
\<close>

theorem get_partitions_strong_components:
  "(\<forall>P \<in> set (get_partitions G nodes).
       P \<noteq> [] \<and> (\<forall>u \<in> set P. set P = strong_component G u))
   \<and> (\<forall>i j. i < j \<and> j < length (get_partitions G nodes) \<longrightarrow>
          set (get_partitions G nodes ! i) \<inter> set (get_partitions G nodes ! j) = {})"
proof -
  obtain seen' parts' where r: "partitions_loop G nodes ([], []) = (seen', parts')"
    by (cases "partitions_loop G nodes ([], [])") auto
  have "parts_inv G (set []) []" by (simp add: parts_inv_def closed_under_def)
  then have "parts_inv G (set seen') parts'" using partitions_loop_inv r by blast
  moreover have "get_partitions G nodes = parts'" using r by (simp add: get_partitions_def)
  ultimately show ?thesis unfolding parts_inv_def by blast
qed

lemma strong_weight: "(u, v) \<in> strong G \<Longrightarrow> weight G u v \<ge> 2"
  by (simp add: strong_def)

text \<open>
  The example of the specification: the edge \<open>(b,c)\<close> of weight 1 is not followed.
\<close>

theorem get_partitions_strong_components_witness:
  "get_partitions G_abcd [0, 1, 2, 3] = [[0, 1], [2, 3]]
   \<and> strong_component G_abcd 0 = {0, 1} \<and> strong_component G_abcd 1 = {0, 1}
   \<and> strong_component G_abcd 2 = {2, 3} \<and> strong_component G_abcd 3 = {2, 3}
   \<and> weight G_abcd 1 2 = 1"
proof -
  have e: "get_partitions G_abcd [0, 1, 2, 3] = [[0, 1], [2, 3]]"
    by (simp add: get_partitions_def G_abcd_def BFS_local_def neighbors_def weight_def joins_def)
  have w: "weight G_abcd 1 2 = 1" by (simp add: G_abcd_def weight_def joins_def)
  show ?thesis
    using get_partitions_strong_components [of G_abcd "[0, 1, 2, 3]"] w
    unfolding e by auto
qed

section \<open>Properties of add\_to\_graph and process\_alignment\<close>

lemma edges_extended_refl: "edges_extended G G ok"
  by (simp add: edges_extended_def)

lemma edges_extended_trans:
  "edges_extended G G1 ok \<Longrightarrow> edges_extended G1 G2 ok \<Longrightarrow> edges_extended G G2 ok"
  by (fastforce simp: edges_extended_def)

lemma edges_extended_mono:
  "edges_extended G G' ok \<Longrightarrow> (\<And>e. ok e \<Longrightarrow> ok' e) \<Longrightarrow> edges_extended G G' ok'"
  by (fastforce simp: edges_extended_def)

lemma addEdge_extended: "ok (u, v, w) \<Longrightarrow> edges_extended G (addEdge G u v w) ok"
  by (simp add: edges_extended_def addEdge_def)

lemma add_edges_to_extended:
  "edges_extended G (add_edges_to G n others w) (\<lambda>e. fst e = n \<and> fst (snd e) \<in> set others \<and> snd (snd e) = w)"
proof (induction others arbitrary: G)
  case Nil
  then show ?case by (simp add: edges_extended_refl)
next
  case (Cons a others)
  let ?ok = "\<lambda>e. fst e = n \<and> fst (snd e) \<in> set (a # others) \<and> snd (snd e) = w"
  let ?G1 = "if \<not> hasEdge G n a then addEdge G n a w else G"
  have 1: "edges_extended G ?G1 ?ok"
    by (simp add: addEdge_extended edges_extended_refl)
  have "edges_extended ?G1 (add_edges_to ?G1 n others w)
          (\<lambda>e. fst e = n \<and> fst (snd e) \<in> set others \<and> snd (snd e) = w)"
    by (rule Cons.IH)
  then have 2: "edges_extended ?G1 (add_edges_to ?G1 n others w) ?ok"
    by (rule edges_extended_mono) simp
  show ?case using edges_extended_trans [OF 1 2] by simp
qed

lemma link_sites_extended:
  "link_sites X G sa n chrom event_pos chrom2 pos2 = (G', sa') \<Longrightarrow>
   edges_extended G G' (\<lambda>e. snd (snd e) = 0)"
  by (auto simp: link_sites_def Let_def edges_extended_def addEdge_def
      split: prod.splits if_splits)

lemma link_to_sites_extended:
  "edges_extended (e_G E) (e_G (link_to_sites X E n chrom event_pos chrom2 pos2 read_enum))
     (\<lambda>e. snd (snd e) = 0)"
proof (cases "e_site_adder E")
  case None
  then show ?thesis by (simp add: link_to_sites_def edges_extended_refl)
next
  case (Some sa)
  show ?thesis
  proof (cases "read_enum = BREAKEND \<or> read_enum = SPLIT")
    case False
    then show ?thesis using Some by (simp add: link_to_sites_def edges_extended_refl)
  next
    case True
    obtain G' sa' where l: "link_sites X (e_G E) sa n chrom event_pos chrom2 pos2 = (G', sa')"
      by (cases "link_sites X (e_G E) sa n chrom event_pos chrom2 pos2") auto
    show ?thesis using Some True l link_sites_extended [OF l] by (simp add: link_to_sites_def)
  qed
qed

lemma link_partners_extended:
  assumes "read_enum \<noteq> BREAKEND" and "\<not> mm_only"
    and "link_partners X E r n chrom event_pos chrom2 pos2 read_enum mm_only clip_l
           length_from_cigar trust_ins_len = Inr E'"
    and excl: "\<And>self' found. find_other_nodes (x_msu X) (e_pe_scope E) n chrom event_pos chrom2 pos2
           read_enum length_from_cigar trust_ins_len = Some (self', found) \<Longrightarrow> n \<notin> set found"
  shows "edges_extended (e_G E) (e_G E') (\<lambda>e. fst e = n \<and> fst (snd e) \<noteq> n \<and> snd (snd e) = 2)"
proof -
  obtain pe1 others where
    f: "find_other_nodes (x_msu X) (e_pe_scope E) n chrom event_pos chrom2 pos2
           read_enum length_from_cigar trust_ins_len = Some (pe1, others)"
    and e: "E' = E\<lparr>e_pe_scope := pe1, e_G := add_edges_to (e_G E) n others 2\<rparr>"
    using assms(1-3) by (auto simp: link_partners_def split: option.splits)
  have "n \<notin> set others" by (rule excl [OF f])
  then show ?thesis
    unfolding e using add_edges_to_extended [of "e_G E" n others 2]
    by (auto elim!: edges_extended_mono)
qed

lemma record_item_G:
  "record_item E n chrom event_pos chrom2 pos2 read_enum mm_only length_from_cigar = Inr E'
   \<Longrightarrow> e_G E' = e_G E"
  by (auto simp: record_item_def split: if_splits option.splits)

lemma add_to_graph_partner_edges:
  assumes ne: "read_enum \<noteq> BREAKEND" and mm: "\<not> mm_only"
    and run: "add_to_graph X E r flg chrom tell cigar_index event_pos chrom2 pos2 read_enum
           p1_overlaps p2_overlaps mm_only clip_l length_from_cigar trust_ins_len = Inr E'"
    and excl: "\<And>self self' found. find_other_nodes (x_msu X) self (g_n_nodes (e_G E)) chrom
           event_pos chrom2 pos2 read_enum length_from_cigar trust_ins_len = Some (self', found)
           \<Longrightarrow> g_n_nodes (e_G E) \<notin> set found"
  shows "\<exists>new. g_edges (e_G E') = g_edges (e_G E) @ new
           \<and> (\<forall>e \<in> set new. snd (snd e) = 2 \<longrightarrow>
                  fst e = g_n_nodes (e_G E) \<and> fst (snd e) \<noteq> g_n_nodes (e_G E))"
proof -
  define n where "n = g_n_nodes (e_G E)"
  define G1 where "G1 = (e_G E)\<lparr>g_n_nodes := g_n_nodes (e_G E) + 1\<rparr>"
  have an: "addNode (e_G E) = (n, G1)" by (simp add: addNode_def n_def G1_def)
  obtain gs1 where gs1: "add_to_buffer (e_genome_scanner E) r n tell = Inr gs1"
    using run unfolding add_to_graph_def an
    by (auto simp: err_bind_def Let_def split: sum.splits)
  define E1 where "E1 = E\<lparr>e_G := G1,
       e_node_to_name := NodeToName_append (e_node_to_name E) (x_xxhasher X (qname r)) flg (pos r)
                           chrom tell cigar_index event_pos,
       e_genome_scanner := gs1,
       e_template_edges := (if ReadEnum_value read_enum < 2
                              then TemplateEdges_add (e_template_edges E) (qname r) flg n
                                     (query_alignment_start r)
                              else e_template_edges E)\<rparr>"
  obtain E2 E3 where
    l: "link_partners X E1 r n chrom event_pos chrom2 pos2 read_enum mm_only clip_l
           length_from_cigar trust_ins_len = Inr E2" and
    i: "record_item E2 n chrom event_pos chrom2 pos2 read_enum mm_only length_from_cigar = Inr E3"
    and e': "E' = link_to_sites X E3 n chrom event_pos chrom2 pos2 read_enum"
    using run unfolding add_to_graph_def an
    by (auto simp: err_bind_def Let_def gs1 E1_def split: sum.splits)
  let ?ok = "\<lambda>e. snd (snd e) = 2 \<longrightarrow> fst e = n \<and> fst (snd e) \<noteq> n"
  have x1: "edges_extended (e_G E1) (e_G E2) ?ok"
    by (rule edges_extended_mono [OF link_partners_extended [OF ne mm l]])
       (use excl in \<open>auto simp: n_def\<close>)
  have x2: "e_G E3 = e_G E2" by (rule record_item_G [OF i])
  have x3: "edges_extended (e_G E3) (e_G E') ?ok"
    unfolding e' by (rule edges_extended_mono [OF link_to_sites_extended]) simp
  have "edges_extended (e_G E1) (e_G E') ?ok"
    using edges_extended_trans [OF x1] x3 x2 by simp
  moreover have "g_edges (e_G E1) = g_edges (e_G E)" by (simp add: E1_def G1_def)
  ultimately show ?thesis unfolding edges_extended_def n_def by auto
qed


text \<open>
  C9.  The vector that \<open>find_other_nodes\<close> returns never contains the node it was called
  for.  Hence, when \<open>add_to_graph\<close> takes its partners from the paired-end scoper (the
  read is no breakend and \<open>mm_only\<close> is off), every edge of weight 2 that it adds joins
  the new node to another node: none is a self-loop.
\<close>

theorem find_other_nodes_excludes_self:
  "(find_other_nodes msu self node_name current_chrom current_pos chrom2 pos2 read_enum
      length_from_cigar trust_ins_len = Some (self', found) \<longrightarrow> node_name \<notin> set found)
   \<and> (read_enum \<noteq> BREAKEND \<and> \<not> mm_only \<and>
      add_to_graph X E r flg chrom tell cigar_index event_pos chrom2 pos2 read_enum
        p1_overlaps p2_overlaps mm_only clip_l length_from_cigar trust_ins_len = Inr E' \<longrightarrow>
      (\<exists>new. g_edges (e_G E') = g_edges (e_G E) @ new
           \<and> (\<forall>e \<in> set new. snd (snd e) = 2 \<longrightarrow>
                  fst e = g_n_nodes (e_G E) \<and> fst (snd e) \<noteq> g_n_nodes (e_G E))))"
proof (intro conjI impI)
  assume "find_other_nodes msu self node_name current_chrom current_pos chrom2 pos2 read_enum
      length_from_cigar trust_ins_len = Some (self', found)"
  then show "node_name \<notin> set found" by (rule find_other_nodes_result_excludes)
next
  assume a: "read_enum \<noteq> BREAKEND \<and> \<not> mm_only \<and>
      add_to_graph X E r flg chrom tell cigar_index event_pos chrom2 pos2 read_enum
        p1_overlaps p2_overlaps mm_only clip_l length_from_cigar trust_ins_len = Inr E'"
  show "\<exists>new. g_edges (e_G E') = g_edges (e_G E) @ new
           \<and> (\<forall>e \<in> set new. snd (snd e) = 2 \<longrightarrow>
                  fst e = g_n_nodes (e_G E) \<and> fst (snd e) \<noteq> g_n_nodes (e_G E))"
    by (rule add_to_graph_partner_edges [where mm_only = mm_only and read_enum = read_enum])
       (use a find_other_nodes_result_excludes in blast)+
qed

text \<open>
  At a concrete input: the scoper holds node 0, a split read at 0:1000 with partner at
  1:9000; the record of node 1 lies at 0:1005 with its mate at 1:8997.  The scoper
  returns node 0, and \<open>add_to_graph\<close> adds the one edge \<open>(1, 0)\<close> of weight 2.
\<close>

lemma add_to_graph_example:
  "add_to_graph X0 E0 aln1 97 0 0 (-1) 1005 1 8997 DISCORDANT False False False 21 0 True
   = Inr (E0\<lparr>e_G := \<lparr>g_n_nodes = 2, g_edges = [(1, 0, 2)]\<rparr>,
           e_pe_scope := pe_split\<lparr>
             pe_loci := [(1000, make_local_val 1 9000 0 SPLIT 0),
                         (1005, make_local_val 1 8997 1 DISCORDANT 0)],
             pe_chrom_scope := [[], [(8997, make_local_val 0 1005 1 DISCORDANT 0),
                                     (9000, make_local_val 0 1000 0 SPLIT 0)], []]\<rparr>,
           e_template_edges := [(''r0'', [0, 0, 97]), (''r1'', [0, 1, 97])],
           e_node_to_name := e_node_to_name E0 @
             [\<lparr>nn_h = 2, nn_f = 97, nn_p = 1005, nn_c = 0, nn_t = 0, nn_cigar_index = -1,
               nn_event_pos = 1005\<rparr>]\<rparr>)"
  by (simp add: E0_def X0_def aln1_def err_bind_def
       add_to_graph_def addNode_def NodeToName_append_def add_to_buffer_def TemplateEdges_add_def
       dict_set_def link_partners_def record_item_def link_to_sites_def
       find_other_nodes_def pe_split_def forward_scope_index_def Let_def
       from_lower_bound_def before_lower_bound_def make_local_val_def type_gate_def
       forward_examine_def add_item_def hasEdge_def addEdge_def)

theorem find_other_nodes_excludes_self_witness:
  "find_other_nodes (x_msu X0) pe_split 1 0 1005 1 8997 DISCORDANT 0 True = Some (pe_split, [0])
   \<and> (1::int) \<notin> set [0]
   \<and> (\<exists>E'. add_to_graph X0 E0 aln1 97 0 0 (-1) 1005 1 8997 DISCORDANT False False False 21 0 True
             = Inr E'
          \<and> g_edges (e_G E') = g_edges (e_G E0) @ [(1, 0, 2)])"
proof -
  have run: "find_other_nodes (x_msu X0) pe_split 1 0 1005 1 8997 DISCORDANT 0 True
             = Some (pe_split, [0])"
    by (simp add: find_other_nodes_def pe_split_def forward_scope_index_def Let_def
        from_lower_bound_def before_lower_bound_def make_local_val_def type_gate_def
        forward_examine_def)
  have "(1::int) \<notin> set [0]"
    using find_other_nodes_excludes_self
            [of "x_msu X0" pe_split 1 0 1005 1 8997 DISCORDANT 0 True pe_split "[0]"] run
    by blast
  moreover have "g_edges (e_G E0) = []" by (simp add: E0_def)
  ultimately show ?thesis using run add_to_graph_example by simp
qed

subsection \<open>The split read with an unmapped mate\<close>

text \<open>
  C10.  In paired-end mode a call of \<open>process_alignment\<close> for a \<open>SPLIT\<close> read whose flag
  has bit 8 (mate unmapped) returns at once: the graph, the scopers, the template edges,
  the node table, the read buffer, the bad-clip counter and the site adder are all as
  they were, so no node was created.
\<close>

theorem process_alignment_split_mate_unmapped:
  assumes "paired_end \<noteq> 0" and "read_enum = SPLIT" and "flag r AND 8 \<noteq> 0"
  shows "process_alignment X E r clip_l loci_dist clustering_dist cigar_index event_pos paired_end
           tell cigar_pos2 mapq_thresh read_enum mm_only length_from_cigar trust_ins_len = Inr E"
  using assms by (simp add: process_alignment_def)

theorem process_alignment_split_mate_unmapped_witness:
  "flag (aln1\<lparr>flag := 105\<rparr>) AND 8 \<noteq> 0
   \<and> process_alignment X0 E0 (aln1\<lparr>flag := 105\<rparr>) 21 500 500 (-1) 1005 1 0 (-1) 1 SPLIT False 0
       True = Inr E0"
  using process_alignment_split_mate_unmapped
          [of 1 SPLIT "aln1\<lparr>flag := 105\<rparr>" X0 E0 21 500 500 "-1" 1005 0 "-1" 1 False 0 True]
  by (simp add: aln1_def)

text \<open>
  Without the guard the same call does create a node: for the same record as a
  discordant read, the node table and the graph grow by one node.
\<close>

lemma process_alignment_discordant_example:
  "process_alignment X0 E0 aln1 21 500 500 (-1) 1005 1 0 (-1) 1 DISCORDANT False 0 True
   = add_to_graph X0 E0 aln1 97 0 0 (-1) 1005 1 8997 DISCORDANT False False False 21 0 True"
  by (simp add: process_alignment_def process_paired_def E0_def X0_def aln1_def err_bind_def)

end
